theory Spec2Isabelle
  imports Complex_Main "HOL-Library.Word"
begin

section \<open>Errors raised by the scripts\<close>

text \<open>
  The two exceptions that the modelled code can raise: a \<^verbatim>\<open>TypeError\<close> (a property of
  \<^verbatim>\<open>null\<close> or \<^verbatim>\<open>undefined\<close> is read or written, or a value that is not iterable is
  iterated) and the \<^verbatim>\<open>IndexSizeError\<close> that \<^verbatim>\<open>getImageData\<close> raises for a rectangle
  without area.
\<close>

datatype error = TypeError | IndexSizeError

section \<open>The drawing canvas (scripts/canvas.js)\<close>

text \<open>
  \<^verbatim>\<open>DrawingCanvas\<close> keeps its grid as DOM elements: \<^verbatim>\<open>cells[y][x]\<close> is a reference to a
  \<^verbatim>\<open>div\<close>, and \<^verbatim>\<open>drawCell(cell)\<close> writes through such a reference. The model keeps the
  elements in an explicit store \<open>elems\<close>: an element is its index in the store,
  \<^verbatim>\<open>document.createElement\<close> appends to the store, and elements that are no longer
  referenced stay where they are. An index past the end of the store names no element.
  A value that is either a reference to an element or \<^verbatim>\<open>undefined\<close> is an \<open>elem option\<close>.
\<close>

type_synonym elem = nat

record cell =
  textContent :: string
  filled :: bool

record DrawingCanvas =
  container :: "elem list option"
  width :: int
  height :: int
  currentChar :: string
  isDrawing :: bool
  cells :: "elem list list"
  elems :: "cell list"

definition blank :: cell where
  "blank = \<lparr>textContent = '' '', filled = False\<rparr>"

definition newline :: string where
  "newline = [CHR 0x0A]"

text \<open>
  \<^verbatim>\<open>createGrid\<close>: \<^verbatim>\<open>this.container.innerHTML = ''\<close> raises a TypeError while the container
  is still \<^verbatim>\<open>null\<close>. Otherwise \<^verbatim>\<open>height\<close> rows of \<^verbatim>\<open>width\<close> new elements are created in
  row-major order, each with text \<^verbatim>\<open>' '\<close>; the container's content becomes the new grid.
  A loop \<^verbatim>\<open>for (let x = 0; x < n; x++)\<close> runs \<open>nat n\<close> times.
\<close>

definition createGrid :: "DrawingCanvas \<Rightarrow> error + DrawingCanvas" where
  "createGrid s =
     (case container s of
        None \<Rightarrow> Inl TypeError
      | Some old \<Rightarrow>
          (let W = nat (width s); H = nat (height s); base = length (elems s);
               rows = map (\<lambda>y. map (\<lambda>x. base + y * W + x) [0..<W]) [0..<H]
           in Inr (s\<lparr>container := Some (concat rows),
                      cells := rows,
                      elems := elems s @ replicate (H * W) blank\<rparr>)))"

text \<open>
  \<^verbatim>\<open>drawCell(cell)\<close> has no guard on its argument. Its first statement,
  \<^verbatim>\<open>cell.textContent = this.currentChar\<close>, raises a TypeError when \<^verbatim>\<open>cell\<close> is
  \<^verbatim>\<open>undefined\<close> (or names no element), before anything has been written. On an element
  it writes the current character, whether or not that element is one of the grid's cells,
  and sets or removes the class \<^verbatim>\<open>filled\<close>. (The call of \<^verbatim>\<open>App.updateDrawOutput\<close> only
  copies \<^verbatim>\<open>getAscii()\<close> to the page.)
\<close>

definition drawCell :: "elem option \<Rightarrow> DrawingCanvas \<Rightarrow> error + DrawingCanvas" where
  "drawCell cell s =
     (case cell of
        None \<Rightarrow> Inl TypeError
      | Some c \<Rightarrow>
          (if c < length (elems s)
           then Inr (s\<lparr>elems := (elems s)[c := \<lparr>textContent = currentChar s,
                                                filled = (currentChar s \<noteq> '' '')\<rparr>]\<rparr>)
           else Inl TypeError))"


text \<open>\<^verbatim>\<open>resize(width, height)\<close> on integers.\<close>

definition resize :: "int \<Rightarrow> int \<Rightarrow> DrawingCanvas \<Rightarrow> error + DrawingCanvas" where
  "resize w h s =
     createGrid (s\<lparr>width := max 10 (min 200 w), height := max 5 (min 100 h)\<rparr>)"

text \<open>
  \<^verbatim>\<open>this.cells[y] && this.cells[y][x]\<close>: reading an array past its end gives
  \<^verbatim>\<open>undefined\<close>, which is falsy; an element is truthy.
\<close>

definition cellAt :: "DrawingCanvas \<Rightarrow> nat \<Rightarrow> nat \<Rightarrow> elem option" where
  "cellAt s y x =
     (if y < length (cells s) \<and> x < length (cells s ! y) then Some (cells s ! y ! x)
      else None)"

text \<open>
  The same expression without the guard, \<^verbatim>\<open>this.cells[y][x]\<close>, for integers \<open>y\<close> and \<open>x\<close>:
  when \<open>y\<close> is not an index of \<^verbatim>\<open>cells\<close> the row is \<^verbatim>\<open>undefined\<close> and reading its
  property \<open>x\<close> raises a TypeError; when only \<open>x\<close> is not an index of the row the value is
  \<^verbatim>\<open>undefined\<close>.
\<close>

definition cells_index :: "DrawingCanvas \<Rightarrow> int \<Rightarrow> int \<Rightarrow> error + elem option" where
  "cells_index s y x =
     (if 0 \<le> y \<and> nat y < length (cells s)
      then Inr (if 0 \<le> x \<and> nat x < length (cells s ! nat y)
                then Some (cells s ! nat y ! nat x) else None)
      else Inl TypeError)"

text \<open>
  The script has no operation that takes the coordinates of a cell. With coordinates, the
  cell is drawn on by the call \<^verbatim>\<open>drawCell(this.cells[y][x])\<close>: the argument is evaluated
  first, and an exception of its evaluation is the exception of the call.
\<close>

definition drawCell_at :: "int \<Rightarrow> int \<Rightarrow> DrawingCanvas \<Rightarrow> error + DrawingCanvas" where
  "drawCell_at y x s =
     (case cells_index s y x of Inl e \<Rightarrow> Inl e | Inr cell \<Rightarrow> drawCell cell s)"

definition textOf :: "DrawingCanvas \<Rightarrow> elem \<Rightarrow> string" where
  "textOf s c = (if c < length (elems s) then textContent (elems s ! c) else [])"

text \<open>
  \<^verbatim>\<open>getAscii\<close>: per row, the text of every cell that exists (\<^verbatim>\<open>textContent || ' '\<close>: an
  empty text counts as one blank), then a line feed after every row.
\<close>

definition cellText :: "DrawingCanvas \<Rightarrow> nat \<Rightarrow> nat \<Rightarrow> string" where
  "cellText s y x =
     (case cellAt s y x of
        None \<Rightarrow> []
      | Some c \<Rightarrow> (if textOf s c = [] then '' '' else textOf s c))"

definition rowText :: "DrawingCanvas \<Rightarrow> nat \<Rightarrow> string" where
  "rowText s y = concat (map (cellText s y) [0..<nat (width s)]) @ newline"

definition getAscii :: "DrawingCanvas \<Rightarrow> string" where
  "getAscii s = concat (map (rowText s) [0..<nat (height s)])"

text \<open>The clamp of the specification, written with comparisons.\<close>

definition clamp :: "int \<Rightarrow> int \<Rightarrow> int \<Rightarrow> int" where
  "clamp lo hi v = (if v < lo then lo else if hi < v then hi else v)"

text \<open>
  The shape of a grid that \<^verbatim>\<open>createGrid\<close> has built and single characters have been
  drawn on: \<^verbatim>\<open>height\<close> rows of \<^verbatim>\<open>width\<close> cells, all of them different elements of the
  store, none holding more than one character.
\<close>

definition grid_ok :: "DrawingCanvas \<Rightarrow> bool" where
  "grid_ok s \<longleftrightarrow>
     length (cells s) = nat (height s) \<and>
     list_all (\<lambda>row. length row = nat (width s)) (cells s) \<and>
     distinct (concat (cells s)) \<and>
     list_all (\<lambda>c. c < length (elems s) \<and> length (textContent (elems s ! c)) \<le> 1)
       (concat (cells s))"

text \<open>The object literal's initial fields.\<close>

definition initial :: DrawingCanvas where
  "initial = \<lparr>container = None, width = 80, height = 40, currentChar = ''@'',
      isDrawing = False, cells = [], elems = []\<rparr>"

text \<open>A two by two grid with the character \<^verbatim>\<open>#\<close> selected, for concrete evaluations.\<close>

definition small_grid :: DrawingCanvas where
  "small_grid = \<lparr>container = Some [0, 1, 2, 3], width = 2, height = 2, currentChar = ''#'',
      isDrawing = False, cells = [[0, 1], [2, 3]], elems = [blank, blank, blank, blank]\<rparr>"

section \<open>JavaScript numbers (scripts/pixelate.js)\<close>

text \<open>
  A JavaScript number is an IEEE 754 binary64 value. The finite ones are modelled by the
  real number they denote, and every arithmetic operation rounds its exact result to the
  nearest binary64 value, ties to the even significand (\<open>fl\<close>). \<open>flog2 x\<close> is the binary
  exponent of a positive \<open>x\<close>: \<open>2 powi flog2 x \<le> x < 2 powi (flog2 x + 1)\<close>. The rounding is
  the one of the normal range of binary64 (53 bits of significand); overflow to infinity
  and gradual underflow are not modelled, and a zero has no sign. All numbers that
  \<^verbatim>\<open>pixelate\<close> and \<^verbatim>\<open>applyColorMode\<close> compute from bytes, from image dimensions below \<open>2^32\<close>
  and from a pixel size of ordinary magnitude are within the normal range.
\<close>

function flog2 :: "real \<Rightarrow> int" where
  "flog2 x =
     (if x \<le> 0 then 0
      else if 2 \<le> x then flog2 (x / 2) + 1
      else if x < 1 then flog2 (2 * x) - 1
      else 0)"
  by pat_completeness auto
termination
proof (relation "measure (\<lambda>x. nat (if 1 \<le> x then \<lfloor>x\<rfloor> else \<lceil>1 / x\<rceil>))")
  show "wf (measure (\<lambda>x. nat (if 1 \<le> x then \<lfloor>x\<rfloor> else \<lceil>1 / x\<rceil>)))" by simp
next
  fix x :: real
  assume a: "\<not> x \<le> 0" "2 \<le> x"
  have "\<lfloor>x / 2\<rfloor> \<le> \<lfloor>x - 1\<rfloor>" using a by (intro floor_mono) simp
  then have "\<lfloor>x / 2\<rfloor> < \<lfloor>x\<rfloor>" by simp
  moreover have "0 < \<lfloor>x\<rfloor>" using a by simp
  ultimately show "(x / 2, x) \<in> measure (\<lambda>x. nat (if 1 \<le> x then \<lfloor>x\<rfloor> else \<lceil>1 / x\<rceil>))"
    using a by simp
next
  fix x :: real
  assume a: "\<not> x \<le> 0" "\<not> 2 \<le> x" "x < 1"
  then have x: "0 < x" by simp
  have big: "1 < 1 / x" using a x by simp
  then have c2: "2 \<le> \<lceil>1 / x\<rceil>" by linarith
  show "(2 * x, x) \<in> measure (\<lambda>x. nat (if 1 \<le> x then \<lfloor>x\<rfloor> else \<lceil>1 / x\<rceil>))"
  proof (cases "1 \<le> 2 * x")
    case True
    have "\<lfloor>2 * x\<rfloor> \<le> 1" using a by linarith
    then have "\<lfloor>2 * x\<rfloor> < \<lceil>1 / x\<rceil>" using c2 by linarith
    then show ?thesis using True a by simp
  next
    case False
    then have "2 \<le> 1 / x" using x by (simp add: field_simps)
    then have "1 / (2 * x) \<le> 1 / x - 1" using x by (simp add: field_simps)
    then have "\<lceil>1 / (2 * x)\<rceil> \<le> \<lceil>1 / x - 1\<rceil>" by (rule ceiling_mono)
    then have "\<lceil>1 / (2 * x)\<rceil> < \<lceil>1 / x\<rceil>" by simp
    then show ?thesis using False a c2 by simp
  qed
qed

declare flog2.simps [simp del]

text \<open>Rounding a real to the nearest integer, a tie to the even one.\<close>

definition rne :: "real \<Rightarrow> int" where
  "rne x =
     (let f = \<lfloor>x\<rfloor>; d = x - of_int f
      in if d < 1 / 2 then f else if 1 / 2 < d then f + 1 else if even f then f else f + 1)"

definition fl :: "real \<Rightarrow> real" where
  "fl x =
     (if x = 0 then 0
      else (let e = flog2 \<bar>x\<bar> - 52 in of_int (rne (x / 2 powi e)) * 2 powi e))"

text \<open>
  The numbers with the two infinities and NaN, and the operators and \<^verbatim>\<open>Math\<close> functions
  that the script applies to them. A division by zero follows the sign of the dividend
  (the zero divisor counts as \<open>+0\<close>).
\<close>

datatype number = Fin real | PInf | NInf | NaN

fun num_div :: "number \<Rightarrow> number \<Rightarrow> number" where
  "num_div (Fin a) (Fin b) =
     (if b = 0 then (if a = 0 then NaN else if 0 < a then PInf else NInf)
      else Fin (fl (a / b)))"
| "num_div (Fin a) PInf = Fin 0"
| "num_div (Fin a) NInf = Fin 0"
| "num_div PInf (Fin b) = (if b < 0 then NInf else PInf)"
| "num_div NInf (Fin b) = (if b < 0 then PInf else NInf)"
| "num_div _ _ = NaN"

fun num_mul :: "number \<Rightarrow> number \<Rightarrow> number" where
  "num_mul (Fin a) (Fin b) = Fin (fl (a * b))"
| "num_mul (Fin a) PInf = (if a = 0 then NaN else if 0 < a then PInf else NInf)"
| "num_mul (Fin a) NInf = (if a = 0 then NaN else if 0 < a then NInf else PInf)"
| "num_mul PInf (Fin b) = (if b = 0 then NaN else if 0 < b then PInf else NInf)"
| "num_mul NInf (Fin b) = (if b = 0 then NaN else if 0 < b then NInf else PInf)"
| "num_mul PInf PInf = PInf"
| "num_mul PInf NInf = NInf"
| "num_mul NInf PInf = NInf"
| "num_mul NInf NInf = PInf"
| "num_mul _ _ = NaN"

fun num_add :: "number \<Rightarrow> number \<Rightarrow> number" where
  "num_add (Fin a) (Fin b) = Fin (fl (a + b))"
| "num_add NaN _ = NaN"
| "num_add _ NaN = NaN"
| "num_add PInf NInf = NaN"
| "num_add NInf PInf = NaN"
| "num_add PInf _ = PInf"
| "num_add _ PInf = PInf"
| "num_add NInf _ = NInf"
| "num_add _ NInf = NInf"

fun num_floor :: "number \<Rightarrow> number" where
  "num_floor (Fin a) = Fin (of_int \<lfloor>a\<rfloor>)"
| "num_floor n = n"

fun num_ceil :: "number \<Rightarrow> number" where
  "num_ceil (Fin a) = Fin (of_int \<lceil>a\<rceil>)"
| "num_ceil n = n"

text \<open>\<^verbatim>\<open>Math.min\<close> of two numbers; \<^verbatim>\<open>Math.min(a, b, c)\<close> is \<open>num_min (num_min a b) c\<close>.\<close>

fun num_min :: "number \<Rightarrow> number \<Rightarrow> number" where
  "num_min NaN _ = NaN"
| "num_min _ NaN = NaN"
| "num_min NInf _ = NInf"
| "num_min _ NInf = NInf"
| "num_min PInf n = n"
| "num_min n PInf = n"
| "num_min (Fin a) (Fin b) = Fin (min a b)"

text \<open>The comparisons \<^verbatim>\<open>a >= b\<close> and \<^verbatim>\<open>a < b\<close>: false as soon as one side is NaN.\<close>

fun num_ge :: "number \<Rightarrow> number \<Rightarrow> bool" where
  "num_ge NaN _ = False"
| "num_ge _ NaN = False"
| "num_ge PInf _ = True"
| "num_ge _ NInf = True"
| "num_ge (Fin a) (Fin b) = (b \<le> a)"
| "num_ge _ _ = False"

fun num_lt :: "number \<Rightarrow> number \<Rightarrow> bool" where
  "num_lt NaN _ = False"
| "num_lt _ NaN = False"
| "num_lt (Fin a) (Fin b) = (a < b)"
| "num_lt (Fin a) PInf = True"
| "num_lt NInf (Fin b) = True"
| "num_lt NInf PInf = True"
| "num_lt _ _ = False"

text \<open>Truthiness of a number: \<open>0\<close> and NaN are falsy.\<close>

fun truthy :: "number \<Rightarrow> bool" where
  "truthy (Fin a) = (a \<noteq> 0)"
| "truthy NaN = False"
| "truthy _ = True"

text \<open>\<^verbatim>\<open>Math.round\<close>: the nearest integer, a tie towards \<open>+\<infinity>\<close>.\<close>

definition js_round :: "real \<Rightarrow> int" where
  "js_round x = \<lfloor>x + 1 / 2\<rfloor>"

section \<open>The colour reduction (Pixelator.applyColorMode)\<close>

type_synonym rgb = "int \<times> int \<times> int"

text \<open>
  \<^verbatim>\<open>this.palettes[mode]\<close> is a property lookup on an object literal. Its own properties
  are the three palettes (arrays that are not empty: the model keeps the first entry
  apart) and \<^verbatim>\<open>grayscale: null\<close>. A name that is not an own property is looked up in
  \<^verbatim>\<open>Object.prototype\<close>, whose members are functions (and, for \<^verbatim>\<open>__proto__\<close>, the prototype
  object itself): truthy values that cannot be iterated. Any other name gives
  \<^verbatim>\<open>undefined\<close>.
\<close>

datatype property = Undefined | Null | Array rgb "rgb list" | Inherited

definition object_prototype :: "string list" where
  "object_prototype =
     [''constructor'', ''__proto__'', ''hasOwnProperty'', ''isPrototypeOf'',
      ''propertyIsEnumerable'', ''toLocaleString'', ''toString'', ''valueOf'',
      ''__defineGetter__'', ''__defineSetter__'', ''__lookupGetter__'',
      ''__lookupSetter__'']"

definition palette16 :: "rgb list" where
  "palette16 =
     [(0, 0, 0), (128, 0, 0), (0, 128, 0), (128, 128, 0),
      (0, 0, 128), (128, 0, 128), (0, 128, 128), (192, 192, 192),
      (128, 128, 128), (255, 0, 0), (0, 255, 0), (255, 255, 0),
      (0, 0, 255), (255, 0, 255), (0, 255, 255), (255, 255, 255)]"

definition palette8 :: "rgb list" where
  "palette8 =
     [(0, 0, 0), (255, 0, 0), (0, 255, 0), (0, 0, 255),
      (255, 255, 0), (255, 0, 255), (0, 255, 255), (255, 255, 255)]"

definition palette1bit :: "rgb list" where
  "palette1bit = [(0, 0, 0), (255, 255, 255)]"

definition palettes :: "string \<Rightarrow> property" where
  "palettes mode =
     (if mode = ''16'' then Array (hd palette16) (tl palette16)
      else if mode = ''8'' then Array (hd palette8) (tl palette8)
      else if mode = ''grayscale'' then Null
      else if mode = ''1bit'' then Array (hd palette1bit) (tl palette1bit)
      else if mode \<in> set object_prototype then Inherited
      else Undefined)"

text \<open>
  The distance of the loop body:
  \<^verbatim>\<open>Math.sqrt(Math.pow(r - color[0], 2) + Math.pow(g - color[1], 2) + Math.pow(b - color[2], 2))\<close>,
  every operation rounded.
\<close>

definition pow2 :: "real \<Rightarrow> real" where
  "pow2 d = fl (d * d)"

definition distance :: "int \<Rightarrow> int \<Rightarrow> int \<Rightarrow> rgb \<Rightarrow> real" where
  "distance r g b color =
     (case color of (c0, c1, c2) \<Rightarrow>
        fl (sqrt (fl (fl (pow2 (fl (real_of_int r - real_of_int c0))
                          + pow2 (fl (real_of_int g - real_of_int c1)))
                      + pow2 (fl (real_of_int b - real_of_int c2))))))"

text \<open>
  The loop \<^verbatim>\<open>for (const color of palette)\<close> with its two variables \<^verbatim>\<open>nearestColor\<close> and
  \<^verbatim>\<open>minDistance\<close>.
\<close>

fun nearest :: "int \<Rightarrow> int \<Rightarrow> int \<Rightarrow> rgb list \<Rightarrow> rgb \<times> number \<Rightarrow> rgb \<times> number" where
  "nearest r g b [] acc = acc"
| "nearest r g b (color # rest) (nearestColor, minDistance) =
     (if num_lt (Fin (distance r g b color)) minDistance
      then nearest r g b rest (color, Fin (distance r g b color))
      else nearest r g b rest (nearestColor, minDistance))"

text \<open>\<^verbatim>\<open>Math.round(0.299 * r + 0.587 * g + 0.114 * b)\<close>; a decimal literal is the nearest binary64 value.\<close>

definition gray_of :: "int \<Rightarrow> int \<Rightarrow> int \<Rightarrow> int" where
  "gray_of r g b =
     js_round (fl (fl (fl (fl (299 / 1000) * real_of_int r) + fl (fl (587 / 1000) * real_of_int g))
                   + fl (fl (114 / 1000) * real_of_int b)))"

definition applyColorMode :: "int \<Rightarrow> int \<Rightarrow> int \<Rightarrow> string \<Rightarrow> error + rgb" where
  "applyColorMode r g b mode =
     (if mode = ''full'' then Inr (r, g, b)
      else if mode = ''grayscale'' then Inr (gray_of r g b, gray_of r g b, gray_of r g b)
      else (case palettes mode of
              Undefined \<Rightarrow> Inr (r, g, b)
            | Null \<Rightarrow> Inr (r, g, b)
            | Inherited \<Rightarrow> Inl TypeError
            | Array c0 rest \<Rightarrow> Inr (fst (nearest r g b (c0 # rest) (c0, PInf)))))"

section \<open>Reading the colour reduction\<close>

text \<open>
  The vocabulary of the statements about \<^verbatim>\<open>applyColorMode\<close>: a byte, the palette that a mode
  names, the Euclidean distance in RGB space (in exact arithmetic, through the integer
  sum of squares), and "the entry of the palette nearest to a colour, the first such entry
  in the order of the palette".
\<close>

definition is_byte :: "int \<Rightarrow> bool" where
  "is_byte v \<longleftrightarrow> 0 \<le> v \<and> v \<le> 255"






text \<open>
  The luminance of the specification, \<open>round(0.299 r + 0.587 g + 0.114 b)\<close>, in exact
  arithmetic, with the rounding of \<^verbatim>\<open>Math.round\<close> (to the nearest integer, a half upwards).
  The exact sum is halfway between two integers when \<open>299 r + 587 g + 114 b\<close> leaves the
  remainder 500 modulo 1000.
\<close>

definition luminance :: "int \<Rightarrow> int \<Rightarrow> int \<Rightarrow> int" where
  "luminance r g b =
     \<lfloor>299 / 1000 * real_of_int r + 587 / 1000 * real_of_int g + 114 / 1000 * real_of_int b + 1 / 2\<rfloor>"

definition halfway :: "int \<Rightarrow> int \<Rightarrow> int \<Rightarrow> bool" where
  "halfway r g b \<longleftrightarrow> (299 * r + 587 * g + 114 * b) mod 1000 = 500"


section \<open>The pixelation (Pixelator.pixelate)\<close>

text \<open>
  The options, with the types that the documentation comment of \<^verbatim>\<open>pixelate\<close> gives them; a
  field that is absent reads as \<^verbatim>\<open>undefined\<close> (\<open>None\<close>). The three defaults are
  \<^verbatim>\<open>options.pixelSize || 8\<close>, \<^verbatim>\<open>options.colorMode || 'full'\<close> and
  \<^verbatim>\<open>options.showGrid || false\<close>: the right operand replaces a falsy left operand
  (\<^verbatim>\<open>undefined\<close>, \<open>0\<close>, NaN, the empty string, \<^verbatim>\<open>false\<close>).
\<close>

record options =
  pixelSize :: "number option"
  colorMode :: "string option"
  showGrid :: "bool option"

definition pixelSize_of :: "options \<Rightarrow> number" where
  "pixelSize_of opts =
     (case pixelSize opts of None \<Rightarrow> Fin 8 | Some n \<Rightarrow> (if truthy n then n else Fin 8))"

definition colorMode_of :: "options \<Rightarrow> string" where
  "colorMode_of opts =
     (case colorMode opts of None \<Rightarrow> ''full'' | Some m \<Rightarrow> (if m = [] then ''full'' else m))"

definition showGrid_of :: "options \<Rightarrow> bool" where
  "showGrid_of opts = (case showGrid opts of None \<Rightarrow> False | Some v \<Rightarrow> v)"

text \<open>
  The image: its width and height, and what the browser makes of it when the script draws
  it, with smoothing disabled, onto a temporary canvas of a given size and reads the
  canvas back: \<open>image_data image w h i\<close> is byte \<open>i\<close> of the \<^verbatim>\<open>ImageData\<close> of \<open>w\<close> by \<open>h\<close>
  pixels (four bytes per pixel, row by row). How the browser resamples is not part of the
  script.
\<close>

record image =
  image_width :: nat
  image_height :: nat
  image_data :: "nat \<Rightarrow> nat \<Rightarrow> nat \<Rightarrow> 8 word"

text \<open>
  The target canvas with the state of its 2D context, and the drawing operations applied
  to it since it was last reset, in order. The width and height are the numbers assigned
  (the browser converts them to unsigned long; on the integers from \<open>0\<close> to \<open>2^31 - 1\<close>
  the conversion is the identity). Assigning the width or the height of a canvas clears
  it and resets its context to the default state.
\<close>

datatype style = Rgb int int int | Rgba int int int real

datatype draw =
    FillRect style number number number number
  | Stroke style real "(number \<times> number) list"

record canvas =
  canvas_width :: number
  canvas_height :: number
  imageSmoothingEnabled :: bool
  fillStyle :: style
  strokeStyle :: style
  lineWidth :: real
  drawn :: "draw list"

definition set_width :: "number \<Rightarrow> canvas \<Rightarrow> canvas" where
  "set_width w c =
     \<lparr>canvas_width = w, canvas_height = canvas_height c, imageSmoothingEnabled = True,
      fillStyle = Rgb 0 0 0, strokeStyle = Rgb 0 0 0, lineWidth = 1, drawn = []\<rparr>"

definition set_height :: "number \<Rightarrow> canvas \<Rightarrow> canvas" where
  "set_height h c =
     \<lparr>canvas_width = canvas_width c, canvas_height = h, imageSmoothingEnabled = True,
      fillStyle = Rgb 0 0 0, strokeStyle = Rgb 0 0 0, lineWidth = 1, drawn = []\<rparr>"

definition fillRect :: "number \<Rightarrow> number \<Rightarrow> number \<Rightarrow> number \<Rightarrow> canvas \<Rightarrow> canvas" where
  "fillRect x y w h c = c\<lparr>drawn := drawn c @ [FillRect (fillStyle c) x y w h]\<rparr>"

text \<open>\<^verbatim>\<open>beginPath(); moveTo(p); lineTo(q); stroke()\<close>.\<close>

definition stroke_line :: "number \<times> number \<Rightarrow> number \<times> number \<Rightarrow> canvas \<Rightarrow> canvas" where
  "stroke_line p q c = c\<lparr>drawn := drawn c @ [Stroke (strokeStyle c) (lineWidth c) [p, q]]\<rparr>"

text \<open>The output dimensions (lines 39 to 46) and the block size (lines 69 and 70).\<close>

definition maxSize :: number where
  "maxSize = Fin 400"

definition scaledWidth :: "image \<Rightarrow> number \<Rightarrow> number" where
  "scaledWidth img psize = num_floor (num_div (Fin (real (image_width img))) psize)"

definition scaledHeight :: "image \<Rightarrow> number \<Rightarrow> number" where
  "scaledHeight img psize = num_floor (num_div (Fin (real (image_height img))) psize)"

definition scale :: "image \<Rightarrow> number \<Rightarrow> number" where
  "scale img psize =
     num_min (num_min (num_div maxSize (scaledWidth img psize))
                      (num_div maxSize (scaledHeight img psize)))
             psize"

definition canvasWidth :: "image \<Rightarrow> number \<Rightarrow> number" where
  "canvasWidth img psize =
     num_floor (num_mul (scaledWidth img psize) (scale img psize))"

definition canvasHeight :: "image \<Rightarrow> number \<Rightarrow> number" where
  "canvasHeight img psize =
     num_floor (num_mul (scaledHeight img psize) (scale img psize))"

definition blockW :: "image \<Rightarrow> number \<Rightarrow> number" where
  "blockW img psize = num_div (canvasWidth img psize) (scaledWidth img psize)"

definition blockH :: "image \<Rightarrow> number \<Rightarrow> number" where
  "blockH img psize = num_div (canvasHeight img psize) (scaledHeight img psize)"

text \<open>
  \<^verbatim>\<open>getImageData(0, 0, sw, sh)\<close> takes its arguments as \<^verbatim>\<open>[EnforceRange] long\<close>: a number
  that is not finite, or whose integer part is outside the 32-bit signed range, is a
  TypeError; a width or height of \<open>0\<close> is an IndexSizeError. A negative size reads the
  rectangle to the left of (above) the origin.
\<close>

definition long_of :: "number \<Rightarrow> int option" where
  "long_of n =
     (case n of
        Fin a \<Rightarrow>
          (let t = (if 0 \<le> a then \<lfloor>a\<rfloor> else \<lceil>a\<rceil>)
           in if - (2 ^ 31) \<le> t \<and> t < 2 ^ 31 then Some t else None)
      | _ \<Rightarrow> None)"

definition getImageData :: "image \<Rightarrow> number \<Rightarrow> number \<Rightarrow> error + (nat \<Rightarrow> 8 word)" where
  "getImageData img sw sh =
     (case (long_of sw, long_of sh) of
        (Some a, Some b) \<Rightarrow>
          (if a = 0 \<or> b = 0 then Inl IndexSizeError
           else Inr (image_data img (nat \<bar>a\<bar>) (nat \<bar>b\<bar>)))
      | _ \<Rightarrow> Inl TypeError)"

text \<open>
  The counters of the loops: \<open>below n\<close> lists the values \<open>0, 1, 2, ...\<close> that are \<open>< n\<close>
  (\<^verbatim>\<open>for (let y = 0; y < n; y++)\<close>), \<open>upto n\<close> those that are \<open>\<le> n\<close>. The bounds are the
  scaled width and height, which are finite whenever the loops are reached
  (\<^verbatim>\<open>getImageData\<close> has accepted them); for a bound that is not finite both lists are empty.
  \<open>the_nat\<close> reads a number that is a natural number.
\<close>

fun below :: "number \<Rightarrow> nat list" where
  "below (Fin a) = [0..<nat \<lceil>a\<rceil>]"
| "below _ = []"

fun upto :: "number \<Rightarrow> nat list" where
  "upto (Fin a) = [0..<nat (\<lfloor>a\<rfloor> + 1)]"
| "upto _ = []"

fun the_nat :: "number \<Rightarrow> nat" where
  "the_nat (Fin a) = nat \<lfloor>a\<rfloor>"
| "the_nat _ = 0"

text \<open>
  The two nested loops that draw the blocks, over the cells \<open>(x, y)\<close> in the order of the
  loops (rows outside, columns inside). The bytes of a pixel are read at
  \<open>i = (y * scaledWidth + x) * 4\<close>; an exception of \<^verbatim>\<open>applyColorMode\<close> ends the loops.
\<close>

definition cells_in_order :: "number \<Rightarrow> number \<Rightarrow> (nat \<times> nat) list" where
  "cells_in_order sw sh = concat (map (\<lambda>y. map (\<lambda>x. (x, y)) (below sw)) (below sh))"

fun fill_blocks ::
  "(nat \<Rightarrow> 8 word) \<Rightarrow> nat \<Rightarrow> string \<Rightarrow> number \<Rightarrow> number \<Rightarrow> (nat \<times> nat) list \<Rightarrow> canvas
     \<Rightarrow> canvas \<times> error option" where
  "fill_blocks pixels sw mode bw bh [] ctx = (ctx, None)"
| "fill_blocks pixels sw mode bw bh ((x, y) # rest) ctx =
     (let i = (y * sw + x) * 4;
          r = uint (pixels i); g = uint (pixels (i + 1)); b = uint (pixels (i + 2))
      in case applyColorMode r g b mode of
           Inl e \<Rightarrow> (ctx, Some e)
         | Inr (r', g', b') \<Rightarrow>
             fill_blocks pixels sw mode bw bh rest
               (fillRect (num_floor (num_mul (Fin (real x)) bw))
                         (num_floor (num_mul (Fin (real y)) bh))
                         (num_ceil bw) (num_ceil bh)
                         (ctx\<lparr>fillStyle := Rgb r' g' b'\<rparr>)))"

text \<open>The grid: one vertical line per \<open>x\<close> in \<open>0..scaledWidth\<close>, then one horizontal line per \<open>y\<close>.\<close>

definition grid_at :: "nat \<Rightarrow> number \<Rightarrow> number" where
  "grid_at k block = num_add (num_floor (num_mul (Fin (real k)) block)) (Fin (1 / 2))"

definition draw_grid ::
  "number \<Rightarrow> number \<Rightarrow> number \<Rightarrow> number \<Rightarrow> number \<Rightarrow> number \<Rightarrow> canvas \<Rightarrow> canvas" where
  "draw_grid sw sh bw bh cw ch ctx =
     (let c1 = ctx\<lparr>strokeStyle := Rgba 0 0 0 (3 / 10), lineWidth := 1\<rparr>;
          c2 = foldl (\<lambda>c x. stroke_line (grid_at x bw, Fin 0) (grid_at x bw, ch) c) c1 (upto sw)
      in foldl (\<lambda>c y. stroke_line (Fin 0, grid_at y bh) (cw, grid_at y bh) c) c2 (upto sh))"

text \<open>
  \<^verbatim>\<open>pixelate(image, options, targetCanvas)\<close>. The result is the target canvas as the call
  leaves it, and the exception that ended the call, if any.
\<close>

definition pixelate :: "image \<Rightarrow> options \<Rightarrow> canvas \<Rightarrow> canvas \<times> error option" where
  "pixelate img opts targetCanvas =
     (let psize = pixelSize_of opts;
          mode = colorMode_of opts;
          grid = showGrid_of opts;
          sw = scaledWidth img psize;
          sh = scaledHeight img psize;
          cw = canvasWidth img psize;
          ch = canvasHeight img psize;
          ctx = (set_height ch (set_width cw targetCanvas))\<lparr>imageSmoothingEnabled := False\<rparr>
      in case getImageData img sw sh of
           Inl e \<Rightarrow> (ctx, Some e)
         | Inr pixels \<Rightarrow>
             (let bw = blockW img psize; bh = blockH img psize
              in case fill_blocks pixels (the_nat sw) mode bw bh (cells_in_order sw sh) ctx of
                   (c1, Some e) \<Rightarrow> (c1, Some e)
                 | (c1, None) \<Rightarrow>
                     (if grid \<and> num_ge bw (Fin 3) \<and> num_ge bh (Fin 3)
                      then draw_grid sw sh bw bh cw ch c1 else c1, None)))"

text \<open>Inputs for concrete evaluations.\<close>

definition no_options :: options where
  "no_options = \<lparr>pixelSize = None, colorMode = None, showGrid = None\<rparr>"

definition sample_image :: "nat \<Rightarrow> nat \<Rightarrow> image" where
  "sample_image w h = \<lparr>image_width = w, image_height = h, image_data = (\<lambda>sw sh i. of_nat i)\<rparr>"

definition fresh_canvas :: canvas where
  "fresh_canvas =
     \<lparr>canvas_width = Fin 300, canvas_height = Fin 150, imageSmoothingEnabled = True,
      fillStyle = Rgb 0 0 0, strokeStyle = Rgb 0 0 0, lineWidth = 1, drawn = []\<rparr>"

definition is_stroke :: "draw \<Rightarrow> bool" where
  "is_stroke d = (case d of Stroke s w p \<Rightarrow> True | FillRect s x y w h \<Rightarrow> False)"

section \<open>Properties of the drawing canvas\<close>

lemma concat_replicate_single: "concat (replicate n [c]) = replicate n c"
  by (induction n) auto

lemma grid_index_less: "y < H \<Longrightarrow> x < W \<Longrightarrow> y * W + x < H * (W::nat)"
proof -
  assume a: "y < H" "x < W"
  then have "y * W + x < y * W + W" by simp
  also have "\<dots> = Suc y * W" by simp
  also have "\<dots> \<le> H * W" using a(1) by (intro mult_le_mono1) simp
  finally show ?thesis .
qed

lemma createGrid_Some:
  assumes "container s = Some old"
  shows "createGrid s = Inr (s\<lparr>container := Some (concat (map (\<lambda>y. map (\<lambda>x. length (elems s) + y * nat (width s) + x) [0..<nat (width s)]) [0..<nat (height s)])),
                      cells := map (\<lambda>y. map (\<lambda>x. length (elems s) + y * nat (width s) + x) [0..<nat (width s)]) [0..<nat (height s)],
                      elems := elems s @ replicate (nat (height s) * nat (width s)) blank\<rparr>)"
  using assms by (simp add: createGrid_def Let_def)

lemma createGrid_fields:
  assumes "createGrid s = Inr s'"
  shows "width s' = width s" "height s' = height s" "currentChar s' = currentChar s"
    "cells s' = map (\<lambda>y. map (\<lambda>x. length (elems s) + y * nat (width s) + x) [0..<nat (width s)]) [0..<nat (height s)]"
    "elems s' = elems s @ replicate (nat (height s) * nat (width s)) blank"
  using assms by (auto simp: createGrid_def Let_def split: option.splits)

lemma createGrid_cellAt:
  assumes "createGrid s = Inr s'" "y < nat (height s)" "x < nat (width s)"
  shows "cellAt s' y x = Some (length (elems s) + y * nat (width s) + x)"
  using assms by (simp add: cellAt_def createGrid_fields)

lemma createGrid_textOf:
  assumes "createGrid s = Inr s'" "y < nat (height s)" "x < nat (width s)"
  shows "textOf s' (length (elems s) + y * nat (width s) + x) = '' ''"
  using assms grid_index_less[OF assms(2,3)]
  by (simp add: textOf_def createGrid_fields nth_append blank_def add.assoc)

lemma createGrid_cellText:
  assumes "createGrid s = Inr s'" "y < nat (height s)" "x < nat (width s)"
  shows "cellText s' y x = '' ''"
  using createGrid_cellAt[OF assms] createGrid_textOf[OF assms]
  by (simp add: cellText_def)

lemma createGrid_rowText:
  assumes "createGrid s = Inr s'" "y < nat (height s)"
  shows "rowText s' y = replicate (nat (width s)) CHR '' '' @ newline"
proof -
  have "map (cellText s' y) [0..<nat (width s)] = map (\<lambda>x. '' '') [0..<nat (width s)]"
    using assms by (intro map_cong) (auto simp: createGrid_cellText)
  then show ?thesis
    by (simp add: rowText_def createGrid_fields(1)[OF assms(1)] map_replicate_const concat_replicate_single)
qed

lemma createGrid_getAscii:
  assumes "createGrid s = Inr s'"
  shows "getAscii s' = concat (replicate (nat (height s)) (replicate (nat (width s)) CHR '' '' @ newline))"
proof -
  have "map (rowText s') [0..<nat (height s)] = map (\<lambda>y. replicate (nat (width s)) CHR '' '' @ newline) [0..<nat (height s)]"
    using assms by (intro map_cong) (auto simp: createGrid_rowText)
  then show ?thesis
    by (simp add: getAscii_def createGrid_fields(2)[OF assms] map_replicate_const)
qed





lemma drawCell_fields:
  assumes "drawCell (Some c) s = Inr s'"
  shows "cells s' = cells s" "width s' = width s" "height s' = height s"
    "currentChar s' = currentChar s" "container s' = container s"
    "elems s' = (elems s)[c := \<lparr>textContent = currentChar s, filled = (currentChar s \<noteq> '' '')\<rparr>]"
    "c < length (elems s)"
  using assms by (auto simp: drawCell_def split: if_splits)

lemma drawCell_cellAt:
  assumes "drawCell (Some c) s = Inr s'"
  shows "cellAt s' y x = cellAt s y x"
  by (simp add: cellAt_def drawCell_fields(1)[OF assms])

lemma drawCell_textOf:
  assumes "drawCell (Some c) s = Inr s'"
  shows "textOf s' c' = (if c' = c then currentChar s else textOf s c')"
  using drawCell_fields(7)[OF assms] by (simp add: textOf_def drawCell_fields(6)[OF assms])

lemma cellAt_in_cells: "cellAt s y x = Some c \<Longrightarrow> c \<in> set (concat (cells s))"
  by (auto simp: cellAt_def split: if_splits intro!: bexI[of _ "cells s ! y"])

lemma drawCell_other_getAscii:
  assumes "drawCell (Some c) s = Inr s'" "c \<notin> set (concat (cells s))"
  shows "getAscii s' = getAscii s"
proof -
  have "cellText s' y x = cellText s y x" for y x
    using assms(2) cellAt_in_cells[of s y x]
    by (auto simp: cellText_def drawCell_textOf[OF assms(1)] drawCell_cellAt[OF assms(1)]
          split: option.splits)
  then have "cellText s' = cellText s" by (intro ext)
  then show ?thesis
    by (simp add: getAscii_def rowText_def[abs_def] drawCell_fields(2,3)[OF assms(1)])
qed














lemma small_grid_drawn:
  "\<exists>s'. drawCell_at 1 0 small_grid = Inr s' \<and>
     getAscii s' = [CHR '' '', CHR '' '', CHR 0x0A, CHR ''#'', CHR '' '', CHR 0x0A]"
  by (simp add: drawCell_at_def cells_index_def getAscii_def rowText_def cellText_def cellAt_def
        textOf_def drawCell_def small_grid_def blank_def newline_def upt_rec[of _ "Suc _"]
        upt_rec[of 0] numeral_2_eq_2)

text \<open>The grids that the script builds are well formed, and drawing a single character keeps them so.\<close>

lemma concat_rows_upt:
  "concat (map (\<lambda>y. map (\<lambda>x. base + y * W + x) [0..<W]) [0..<H]) = [base..<base + H * W]"
proof (induction H)
  case 0
  then show ?case by simp
next
  case (Suc H)
  have row: "map (\<lambda>x. base + H * W + x) [0..<W] = [base + H * W..<base + H * W + W]"
    using map_add_upt[of "base + H * W" W] by (simp add: add.commute)
  have app: "[base..<base + H * W] @ [base + H * W..<base + H * W + W] = [base..<base + H * W + W]"
    using upt_add_eq_append[of base "base + H * W" W] by simp
  have "concat (map (\<lambda>y. map (\<lambda>x. base + y * W + x) [0..<W]) [0..<Suc H]) =
        concat (map (\<lambda>y. map (\<lambda>x. base + y * W + x) [0..<W]) [0..<H]) @
        map (\<lambda>x. base + H * W + x) [0..<W]"
    by simp
  also have "\<dots> = [base..<base + H * W + W]" unfolding Suc row app ..
  also have "base + H * W + W = base + Suc H * W" by simp
  finally show ?case .
qed

lemma createGrid_grid_ok:
  assumes "createGrid s = Inr s'"
  shows "grid_ok s'"
proof -
  let ?W = "nat (width s)" and ?H = "nat (height s)" and ?base = "length (elems s)"
  note f = createGrid_fields[OF assms]
  have c: "concat (cells s') = [?base..<?base + ?H * ?W]"
    unfolding f(4) by (rule concat_rows_upt)
  have "length (cells s') = nat (height s')" by (simp add: f)
  moreover have "list_all (\<lambda>row. length row = nat (width s')) (cells s')"
    by (simp add: f list_all_iff)
  moreover have "distinct (concat (cells s'))" unfolding c by simp
  moreover have "list_all (\<lambda>c. c < length (elems s') \<and> length (textContent (elems s' ! c)) \<le> 1)
       (concat (cells s'))"
    unfolding c list_all_iff
  proof
    fix k assume "k \<in> set [?base..<?base + ?H * ?W]"
    then have k: "?base \<le> k" "k < ?base + ?H * ?W" by simp_all
    then have "elems s' ! k = blank" unfolding f(5) by (simp add: nth_append)
    then show "k < length (elems s') \<and> length (textContent (elems s' ! k)) \<le> 1"
      using k by (simp add: f(5) blank_def)
  qed
  ultimately show ?thesis by (simp add: grid_ok_def)
qed

lemma resize_grid_ok: "resize w h s = Inr s' \<Longrightarrow> grid_ok s'"
  unfolding resize_def by (rule createGrid_grid_ok)


text \<open>
  Claim C7. On a canvas that has been initialised (it has its container), \<^verbatim>\<open>resize(w, h)\<close>
  for integers \<open>w\<close> and \<open>h\<close> succeeds; the new width is \<open>w\<close> clamped to \<open>[10, 200]\<close> and the
  new height is \<open>h\<close> clamped to \<open>[5, 100]\<close>; every cell of the new grid is an element created
  by this call (none of the old elements, so no old content survives) and holds one blank;
  and \<^verbatim>\<open>getAscii\<close> then gives exactly height rows of width blanks, each row followed by one
  line feed, the last one included.
\<close>

theorem resize_clamps_and_blanks:
  assumes "container s \<noteq> None"
  shows "\<exists>s'. resize w h s = Inr s' \<and>
           width s' = clamp 10 200 w \<and> height s' = clamp 5 100 h \<and>
           (\<forall>y<nat (height s'). \<forall>x<nat (width s').
              \<exists>c. cellAt s' y x = Some c \<and> length (elems s) \<le> c \<and> textOf s' c = '' '') \<and>
           getAscii s' =
             concat (replicate (nat (clamp 5 100 h))
                       (replicate (nat (clamp 10 200 w)) CHR '' '' @ newline))"
proof -
  let ?t = "s\<lparr>width := max 10 (min 200 w), height := max 5 (min 100 h)\<rparr>"
  obtain old where "container ?t = Some old" using assms by auto
  then obtain s' where s': "createGrid ?t = Inr s'" using createGrid_Some by blast
  have w: "max 10 (min 200 w) = clamp 10 200 w" and h: "max 5 (min 100 h) = clamp 5 100 h"
    by (simp_all add: clamp_def)
  have f: "width s' = clamp 10 200 w" "height s' = clamp 5 100 h"
    using createGrid_fields(1,2)[OF s'] w h by simp_all
  have "\<exists>c. cellAt s' y x = Some c \<and> length (elems s) \<le> c \<and> textOf s' c = '' ''"
    if "y < nat (height s')" "x < nat (width s')" for y x
  proof -
    have y: "y < nat (height ?t)" and x: "x < nat (width ?t)"
      using that createGrid_fields(1,2)[OF s'] by simp_all
    have "cellAt s' y x = Some (length (elems ?t) + y * nat (width ?t) + x)"
      using createGrid_cellAt[OF s' y x] .
    moreover have "textOf s' (length (elems ?t) + y * nat (width ?t) + x) = '' ''"
      using createGrid_textOf[OF s' y x] .
    moreover have "length (elems s) \<le> length (elems ?t) + y * nat (width ?t) + x"
      by simp
    ultimately show ?thesis by blast
  qed
  moreover have "getAscii s' =
      concat (replicate (nat (clamp 5 100 h)) (replicate (nat (clamp 10 200 w)) CHR '' '' @ newline))"
    using createGrid_getAscii[OF s'] w h by simp
  ultimately show ?thesis using s' f by (simp add: resize_def)
qed


theorem resize_clamps_and_blanks_witness:
  "(\<exists>s'. resize 15 8 (initial\<lparr>container := Some []\<rparr>) = Inr s' \<and> width s' = 15 \<and> height s' = 8 \<and>
         getAscii s' = concat (replicate 8 (replicate 15 CHR '' '' @ newline))) \<and>
   (\<exists>s'. resize 500 (- 3) (initial\<lparr>container := Some []\<rparr>) = Inr s' \<and> width s' = 200 \<and> height s' = 5 \<and>
         getAscii s' = concat (replicate 5 (replicate 200 CHR '' '' @ newline)))"
proof -
  have c: "container (initial\<lparr>container := Some []\<rparr>) \<noteq> None" by simp
  have a: "clamp 10 200 15 = 15" "clamp 5 100 8 = 8" "clamp 10 200 500 = 200" "clamp 5 100 (- 3) = 5"
    by (simp_all add: clamp_def)
  have n: "nat 8 = 8" "nat 15 = 15" "nat 200 = 200" "nat 5 = 5" by simp_all
  show ?thesis
    using resize_clamps_and_blanks[OF c, of 15 8] resize_clamps_and_blanks[OF c, of 500 "- 3"]
    unfolding a n by blast
qed










section \<open>Properties of the rounding to binary64\<close>

subsection \<open>The binary exponent\<close>

lemma two_powi_Suc: "(2::real) powi (k + 1) = 2 * 2 powi k"
  by (simp add: power_int_add)

lemma two_powi_pred: "(2::real) powi (k - 1) = 2 powi k / 2"
  by (simp add: power_int_diff)

lemma flog2_bounds:
  "0 < x \<Longrightarrow> 2 powi flog2 x \<le> x \<and> x < 2 powi (flog2 x + 1)"
proof (induction x rule: flog2.induct)
  case (1 x)
  show ?case
  proof (cases "2 \<le> x")
    case True
    then have f: "flog2 x = flog2 (x / 2) + 1" using "1.prems" by (subst flog2.simps) simp
    have "2 powi flog2 (x / 2) \<le> x / 2 \<and> x / 2 < 2 powi (flog2 (x / 2) + 1)"
      using "1.IH"(1) True "1.prems" by simp
    then show ?thesis unfolding f two_powi_Suc by simp
  next
    case False
    show ?thesis
    proof (cases "x < 1")
      case True
      then have f: "flog2 x = flog2 (2 * x) - 1"
        using "1.prems" False by (subst flog2.simps) simp
      have "2 powi flog2 (2 * x) \<le> 2 * x \<and> 2 * x < 2 powi (flog2 (2 * x) + 1)"
        using "1.IH"(2) True False "1.prems" by simp
      then show ?thesis unfolding f two_powi_Suc by (simp add: two_powi_pred)
    next
      case nl: False
      then have "flog2 x = 0" using "1.prems" False by (subst flog2.simps) simp
      then show ?thesis using nl False by simp
    qed
  qed
qed

lemma flog2_unique:
  assumes "2 powi e \<le> x" "x < 2 powi (e + 1)"
  shows "flog2 x = e"
proof -
  have pos: "0 < x" using assms(1) zero_less_power_int[of "2::real" e] by linarith
  note b = flog2_bounds[OF pos]
  have "\<not> flog2 x < e"
  proof
    assume "flog2 x < e"
    then have "(2::real) powi (flog2 x + 1) \<le> 2 powi e" by (intro power_int_increasing) simp_all
    then show False using b assms(1) by linarith
  qed
  moreover have "\<not> e < flog2 x"
  proof
    assume "e < flog2 x"
    then have "(2::real) powi (e + 1) \<le> 2 powi flog2 x" by (intro power_int_increasing) simp_all
    then show False using b assms(2) by linarith
  qed
  ultimately show ?thesis by simp
qed

lemma flog2_mono:
  assumes "0 < x" "x \<le> y"
  shows "flog2 x \<le> flog2 y"
proof (rule ccontr)
  assume "\<not> flog2 x \<le> flog2 y"
  then have "(2::real) powi (flog2 y + 1) \<le> 2 powi flog2 x" by (intro power_int_increasing) simp_all
  then show False using flog2_bounds[OF assms(1)] flog2_bounds[of y] assms by linarith
qed

subsection \<open>Rounding to the nearest integer\<close>

lemma rne_cases: "rne x = \<lfloor>x\<rfloor> \<or> rne x = \<lfloor>x\<rfloor> + 1"
  by (simp add: rne_def Let_def)

lemma rne_int [simp]: "rne (of_int n) = n"
  by (simp add: rne_def)

lemma rne_error: "\<bar>of_int (rne x) - x\<bar> \<le> 1 / 2"
proof -
  have "of_int \<lfloor>x\<rfloor> \<le> x" "x < of_int \<lfloor>x\<rfloor> + 1" by linarith+
  then show ?thesis by (auto simp: rne_def Let_def)
qed

lemma rne_mono:
  assumes "x \<le> y"
  shows "rne x \<le> rne y"
proof (cases "\<lfloor>x\<rfloor> = \<lfloor>y\<rfloor>")
  case True
  then have "x - of_int \<lfloor>x\<rfloor> \<le> y - of_int \<lfloor>y\<rfloor>" using assms by simp
  then show ?thesis using True by (auto simp: rne_def Let_def)
next
  case False
  then have "\<lfloor>x\<rfloor> < \<lfloor>y\<rfloor>" using floor_mono[OF assms] by simp
  then show ?thesis using rne_cases[of x] rne_cases[of y] by linarith
qed

lemma rne_minus: "rne (- x) = - rne x"
proof (cases "x = of_int \<lfloor>x\<rfloor>")
  case True
  then obtain n where "x = of_int n" ..
  then have "- x = of_int (- n)" by simp
  then show ?thesis using \<open>x = of_int n\<close> by (metis rne_int)
next
  case False
  then have lt: "of_int \<lfloor>x\<rfloor> < x" by linarith
  have ub: "x < of_int \<lfloor>x\<rfloor> + 1" by linarith
  have fl: "\<lfloor>- x\<rfloor> = - \<lfloor>x\<rfloor> - 1"
  proof (rule floor_unique)
    have e: "(of_int (- \<lfloor>x\<rfloor> - 1) :: real) = - of_int \<lfloor>x\<rfloor> - 1" by simp
    show "of_int (- \<lfloor>x\<rfloor> - 1) \<le> - x" unfolding e using ub by linarith
    show "- x < of_int (- \<lfloor>x\<rfloor> - 1) + 1" unfolding e using lt by linarith
  qed
  show ?thesis unfolding rne_def Let_def fl using lt by auto
qed

subsection \<open>Rounding to binary64\<close>

lemma fl_zero [simp]: "fl 0 = 0"
  by (simp add: fl_def)

lemma fl_minus: "fl (- x) = - fl x"
  by (simp add: fl_def Let_def rne_minus)

lemma fl_form:
  assumes "x \<noteq> 0"
  shows "fl x = of_int (rne (x / 2 powi (flog2 \<bar>x\<bar> - 52))) * 2 powi (flog2 \<bar>x\<bar> - 52)"
  using assms by (simp add: fl_def Let_def)

lemma fl_eval:
  assumes "2 powi k \<le> \<bar>x\<bar>" "\<bar>x\<bar> < 2 powi (k + 1)"
  shows "fl x = of_int (rne (x / 2 powi (k - 52))) * 2 powi (k - 52)"
proof -
  have "0 < \<bar>x\<bar>" using assms(1) zero_less_power_int[of "2::real" k] by linarith
  then have "x \<noteq> 0" by simp
  then show ?thesis using fl_form flog2_unique[OF assms] by simp
qed

lemma fl_error:
  "\<bar>fl x - x\<bar> \<le> \<bar>x\<bar> / 2 ^ 53"
proof (cases "x = 0")
  case True
  then show ?thesis by simp
next
  case False
  define k where "k = flog2 \<bar>x\<bar>"
  define p where "p = (2::real) powi (k - 52)"
  have p: "0 < p" by (simp add: p_def zero_less_power_int)
  have b: "2 powi k \<le> \<bar>x\<bar>" using flog2_bounds[of "\<bar>x\<bar>"] False by (simp add: k_def)
  have "fl x - x = (of_int (rne (x / p)) - x / p) * p"
    using fl_form[OF False] p by (simp add: k_def p_def algebra_simps)
  then have "\<bar>fl x - x\<bar> = \<bar>of_int (rne (x / p)) - x / p\<bar> * p"
    using p by (simp add: abs_mult)
  also have "\<dots> \<le> (1 / 2) * p" using rne_error[of "x / p"] p by (intro mult_right_mono) simp_all
  also have "\<dots> = 2 powi k / 2 ^ 53"
    by (simp add: p_def power_int_diff)
  also have "\<dots> \<le> \<bar>x\<bar> / 2 ^ 53" using b by (simp add: divide_right_mono)
  finally show ?thesis .
qed

lemma fl_nonneg: "0 \<le> x \<Longrightarrow> 0 \<le> fl x"
proof -
  assume a: "0 \<le> x"
  show ?thesis
  proof (cases "x = 0")
    case False
    have p: "0 < (2::real) powi (flog2 \<bar>x\<bar> - 52)" by (simp add: zero_less_power_int)
    then have "0 \<le> x / 2 powi (flog2 \<bar>x\<bar> - 52)" using a by simp
    then have "rne 0 \<le> rne (x / 2 powi (flog2 \<bar>x\<bar> - 52))" by (rule rne_mono)
    then have "0 \<le> rne (x / 2 powi (flog2 \<bar>x\<bar> - 52))" using rne_int[of 0] by simp
    then show ?thesis using p unfolding fl_form[OF False] by simp
  qed simp
qed

lemma fl_nonpos: "x \<le> 0 \<Longrightarrow> fl x \<le> 0"
  using fl_nonneg[of "- x"] by (simp add: fl_minus)

lemma fl_pos_bounds:
  assumes "0 < x"
  shows "2 powi flog2 x \<le> fl x" "fl x \<le> 2 powi (flog2 x + 1)"
proof -
  define k where "k = flog2 x"
  define p where "p = (2::real) powi (k - 52)"
  have p: "0 < p" by (simp add: p_def zero_less_power_int)
  have b: "2 powi k \<le> x" "x < 2 powi (k + 1)" using flog2_bounds[OF assms] by (simp_all add: k_def)
  have f: "fl x = of_int (rne (x / p)) * p"
    using fl_form[of x] assms by (simp add: k_def p_def)
  have lo: "2 powi k / p = of_int (2 ^ 52)" by (simp add: p_def power_int_diff)
  have hi: "2 powi (k + 1) / p = of_int (2 ^ 53)" by (simp add: p_def power_int_diff power_int_add)
  have "of_int (2 ^ 52) \<le> x / p" using b(1) p unfolding lo[symmetric] by (simp add: divide_right_mono)
  then have "rne (of_int (2 ^ 52)) \<le> rne (x / p)" by (rule rne_mono)
  then have "2 ^ 52 \<le> rne (x / p)" unfolding rne_int .
  then have "(2 ^ 52 :: real) \<le> of_int (rne (x / p))"
    using of_int_le_iff[of "2 ^ 52" "rne (x / p)", where ?'a = real] by simp
  then have "2 ^ 52 * p \<le> fl x" unfolding f using p by simp
  moreover have "2 ^ 52 * p = 2 powi k" using lo p by (simp add: field_simps)
  ultimately show "2 powi flog2 x \<le> fl x" by (simp add: k_def)
  have "x / p \<le> of_int (2 ^ 53)" using b(2) p unfolding hi[symmetric] by (simp add: divide_right_mono)
  then have "rne (x / p) \<le> rne (of_int (2 ^ 53))" by (rule rne_mono)
  then have "rne (x / p) \<le> 2 ^ 53" unfolding rne_int .
  then have "of_int (rne (x / p)) \<le> (2 ^ 53 :: real)"
    using of_int_le_iff[of "rne (x / p)" "2 ^ 53", where ?'a = real] by simp
  then have "fl x \<le> 2 ^ 53 * p" unfolding f using p by simp
  moreover have "2 ^ 53 * p = 2 powi (k + 1)" using hi p by (simp add: field_simps)
  ultimately show "fl x \<le> 2 powi (flog2 x + 1)" by (simp add: k_def)
qed

lemma fl_mono_pos:
  assumes "0 < x" "x \<le> y"
  shows "fl x \<le> fl y"
proof (cases "flog2 x = flog2 y")
  case True
  have y: "0 < y" using assms by simp
  have p: "0 < (2::real) powi (flog2 y - 52)" by (simp add: zero_less_power_int)
  have "x / 2 powi (flog2 y - 52) \<le> y / 2 powi (flog2 y - 52)"
    using assms(2) p by (simp add: divide_right_mono)
  then have "rne (x / 2 powi (flog2 y - 52)) \<le> rne (y / 2 powi (flog2 y - 52))" by (rule rne_mono)
  then show ?thesis using fl_form[of x] fl_form[of y] assms y True p by simp
next
  case False
  have y: "0 < y" using assms by simp
  have "flog2 x < flog2 y" using flog2_mono[OF assms] False by simp
  then have "(2::real) powi (flog2 x + 1) \<le> 2 powi flog2 y"
    by (intro power_int_increasing) simp_all
  then show ?thesis using fl_pos_bounds(2)[OF assms(1)] fl_pos_bounds(1)[OF y] by linarith
qed

lemma fl_mono:
  assumes "x \<le> y"
  shows "fl x \<le> fl y"
proof -
  consider "0 < x" | "x \<le> 0" "0 \<le> y" | "y < 0" by linarith
  then show ?thesis
  proof cases
    case 1
    then show ?thesis using fl_mono_pos assms by simp
  next
    case 2
    then show ?thesis using fl_nonneg[of y] fl_nonpos[of x] by linarith
  next
    case 3
    then have "fl (- y) \<le> fl (- x)" using assms by (intro fl_mono_pos) simp_all
    then show ?thesis by (simp add: fl_minus)
  qed
qed

lemma fl_int:
  assumes "\<bar>n\<bar> < 2 ^ 53"
  shows "fl (of_int n) = of_int n"
proof (cases "n = 0")
  case True
  then show ?thesis by simp
next
  case False
  define x where "x = (of_int n :: real)"
  define k where "k = flog2 \<bar>x\<bar>"
  have x0: "x \<noteq> 0" using False by (simp add: x_def)
  have "2 powi k \<le> \<bar>x\<bar>" using flog2_bounds[of "\<bar>x\<bar>"] x0 by (simp add: k_def)
  moreover have "\<bar>x\<bar> < 2 powi 53" using assms unfolding x_def
    by (metis of_int_abs of_int_less_numeral_power_cancel_iff power_int_numeral numeral_power_eq_of_int_cancel_iff of_int_numeral of_int_power)
  ultimately have "(2::real) powi k < 2 powi 53" by linarith
  then have "k < 53" using power_int_increasing[of 53 k "2::real"] by (cases "k < 53") simp_all
  define m where "m = nat (52 - k)"
  have e: "k - 52 = - int m" using \<open>k < 53\<close> by (simp add: m_def)
  have pw: "(2::real) powi (k - 52) = 1 / 2 ^ m" unfolding e by (simp add: power_int_minus field_simps)
  have "x / 2 powi (k - 52) = of_int (n * 2 ^ m)" by (simp add: pw x_def)
  then have "rne (x / 2 powi (k - 52)) = n * 2 ^ m" by (metis rne_int)
  then have "fl x = of_int (n * 2 ^ m) * (1 / 2 ^ m)"
    using fl_form[OF x0] unfolding k_def[symmetric] pw by simp
  then show ?thesis by (simp add: x_def)
qed

section \<open>Properties of the colour reduction\<close>


























lemma applyColorMode_full: "applyColorMode r g b ''full'' = Inr (r, g, b)"
  by (simp add: applyColorMode_def)

lemma applyColorMode_unknown:
  assumes "mode \<notin> {''full'', ''grayscale'', ''16'', ''8'', ''1bit''}" "mode \<notin> set object_prototype"
  shows "applyColorMode r g b mode = Inr (r, g, b)"
  using assms by (simp add: applyColorMode_def palettes_def)










text \<open>
  Claim C9. In mode \<^verbatim>\<open>'full'\<close> the colour is returned as it is (\<open>applyColorMode_full\<close>), and
  so it is for a mode that names neither a palette nor a member of \<^verbatim>\<open>Object.prototype\<close>
  (\<open>applyColorMode_unknown\<close>). For the mode \<^verbatim>\<open>'constructor'\<close>, which is outside the five
  recognised modes, \<^verbatim>\<open>this.palettes[mode]\<close> is the inherited function \<^verbatim>\<open>Object\<close>, the guard
  \<^verbatim>\<open>if (!palette)\<close> does not fire, and iterating the function raises a TypeError: the
  colour is not returned.
\<close>

theorem applyColorMode_inherited_property_raises:
  "applyColorMode 10 20 30 ''constructor'' = Inl TypeError"
  by (simp add: applyColorMode_def palettes_def object_prototype_def)

section \<open>Properties of the grey level\<close>

lemma coefficients:
  "fl (299 / 1000) = 5386305154335113 / 2 ^ 54"
  "fl (587 / 1000) = 2643612981266481 / 2 ^ 52"
  "fl (114 / 1000) = 8214565720323785 / 2 ^ 56"
  by (simp_all add: fl_def flog2.simps rne_def Let_def)

lemma gray_of_examples:
  "gray_of 0 0 0 = 0" "gray_of 255 255 255 = 255" "gray_of 0 36 12 = 22" "gray_of 0 0 250 = 29"
  by (simp_all add: gray_of_def fl_def flog2.simps rne_def Let_def js_round_def)

lemma js_round_mono: "x \<le> y \<Longrightarrow> js_round x \<le> js_round y"
  by (simp add: js_round_def floor_mono)

lemma gray_of_mono:
  assumes "0 \<le> r" "r \<le> r'" "0 \<le> g" "g \<le> g'" "0 \<le> b" "b \<le> b'"
  shows "gray_of r g b \<le> gray_of r' g' b'"
proof -
  have c: "0 \<le> fl (299 / 1000)" "0 \<le> fl (587 / 1000)" "0 \<le> fl (114 / 1000)"
    by (simp_all add: fl_nonneg)
  have "fl (299 / 1000) * real_of_int r \<le> fl (299 / 1000) * real_of_int r'"
    using assms(2) c(1) by (intro mult_left_mono) simp_all
  then have 1: "fl (fl (299 / 1000) * real_of_int r) \<le> fl (fl (299 / 1000) * real_of_int r')"
    by (rule fl_mono)
  have "fl (587 / 1000) * real_of_int g \<le> fl (587 / 1000) * real_of_int g'"
    using assms(4) c(2) by (intro mult_left_mono) simp_all
  then have 2: "fl (fl (587 / 1000) * real_of_int g) \<le> fl (fl (587 / 1000) * real_of_int g')"
    by (rule fl_mono)
  have "fl (114 / 1000) * real_of_int b \<le> fl (114 / 1000) * real_of_int b'"
    using assms(6) c(3) by (intro mult_left_mono) simp_all
  then have 3: "fl (fl (114 / 1000) * real_of_int b) \<le> fl (fl (114 / 1000) * real_of_int b')"
    by (rule fl_mono)
  have "fl (fl (fl (299 / 1000) * real_of_int r) + fl (fl (587 / 1000) * real_of_int g))
      \<le> fl (fl (fl (299 / 1000) * real_of_int r') + fl (fl (587 / 1000) * real_of_int g'))"
    by (rule fl_mono) (rule add_mono[OF 1 2])
  then have s: "fl (fl (fl (299 / 1000) * real_of_int r) + fl (fl (587 / 1000) * real_of_int g))
      \<le> fl (fl (fl (299 / 1000) * real_of_int r') + fl (fl (587 / 1000) * real_of_int g'))" .
  have "fl (fl (fl (fl (299 / 1000) * real_of_int r) + fl (fl (587 / 1000) * real_of_int g))
                 + fl (fl (114 / 1000) * real_of_int b))
      \<le> fl (fl (fl (fl (299 / 1000) * real_of_int r') + fl (fl (587 / 1000) * real_of_int g'))
                 + fl (fl (114 / 1000) * real_of_int b'))"
    by (rule fl_mono) (rule add_mono[OF s 3])
  then show ?thesis unfolding gray_of_def by (rule js_round_mono)
qed

lemma gray_of_byte:
  assumes "is_byte r" "is_byte g" "is_byte b"
  shows "is_byte (gray_of r g b)"
proof -
  have "gray_of 0 0 0 \<le> gray_of r g b"
    using assms by (intro gray_of_mono) (simp_all add: is_byte_def)
  moreover have "gray_of r g b \<le> gray_of 255 255 255"
    using assms by (intro gray_of_mono) (simp_all add: is_byte_def)
  ultimately show ?thesis by (simp add: gray_of_examples is_byte_def)
qed

lemma applyColorMode_grayscale:
  "applyColorMode r g b ''grayscale'' = Inr (gray_of r g b, gray_of r g b, gray_of r g b)"
  by (simp add: applyColorMode_def)


text \<open>The binary64 sum against the exact one.\<close>

lemma luminance_div: "luminance r g b = (299 * r + 587 * g + 114 * b + 500) div 1000"
proof -
  have "299 / 1000 * real_of_int r + 587 / 1000 * real_of_int g + 114 / 1000 * real_of_int b + 1 / 2
        = real_of_int (299 * r + 587 * g + 114 * b + 500) / real_of_int 1000"
    by simp
  then show ?thesis unfolding luminance_def by (simp only: floor_divide_of_int_eq)
qed

lemma fl_small_error:
  assumes "\<bar>x\<bar> \<le> 512"
  shows "\<bar>fl x - x\<bar> \<le> 1 / 1000000000000"
proof -
  have "\<bar>fl x - x\<bar> \<le> \<bar>x\<bar> / 2 ^ 53" by (rule fl_error)
  also have "\<dots> \<le> 512 / 2 ^ 53" using assms by (simp add: divide_right_mono)
  also have "\<dots> \<le> (1::real) / 1000000000000" by simp
  finally show ?thesis .
qed

lemma gray_sum_error:
  fixes r g b :: real
  assumes "0 \<le> r" "r \<le> 255" "0 \<le> g" "g \<le> 255" "0 \<le> b" "b \<le> 255"
  shows "\<bar>fl (fl (fl (fl (299 / 1000) * r) + fl (fl (587 / 1000) * g)) + fl (fl (114 / 1000) * b))
          - (299 / 1000 * r + 587 / 1000 * g + 114 / 1000 * b)\<bar> \<le> 1 / 100000000000"
proof -
  define p1 where "p1 = fl (fl (299 / 1000) * r)"
  define p2 where "p2 = fl (fl (587 / 1000) * g)"
  define p3 where "p3 = fl (fl (114 / 1000) * b)"
  define s1 where "s1 = fl (p1 + p2)"
  have c1: "\<bar>fl (299 / 1000) * r - 299 / 1000 * r\<bar> \<le> 1 / 1000000000000" "\<bar>fl (299 / 1000) * r\<bar> \<le> 512"
    using assms(1,2) unfolding coefficients by (simp_all add: abs_le_iff)
  have c2: "\<bar>fl (587 / 1000) * g - 587 / 1000 * g\<bar> \<le> 1 / 1000000000000" "\<bar>fl (587 / 1000) * g\<bar> \<le> 512"
    using assms(3,4) unfolding coefficients by (simp_all add: abs_le_iff)
  have c3: "\<bar>fl (114 / 1000) * b - 114 / 1000 * b\<bar> \<le> 1 / 1000000000000" "\<bar>fl (114 / 1000) * b\<bar> \<le> 512"
    using assms(5,6) unfolding coefficients by (simp_all add: abs_le_iff)
  have e1: "\<bar>p1 - 299 / 1000 * r\<bar> \<le> 2 / 1000000000000"
    using fl_small_error[OF c1(2)] c1(1) unfolding p1_def by linarith
  have e2: "\<bar>p2 - 587 / 1000 * g\<bar> \<le> 2 / 1000000000000"
    using fl_small_error[OF c2(2)] c2(1) unfolding p2_def by linarith
  have e3: "\<bar>p3 - 114 / 1000 * b\<bar> \<le> 2 / 1000000000000"
    using fl_small_error[OF c3(2)] c3(1) unfolding p3_def by linarith
  have b12: "\<bar>p1 + p2\<bar> \<le> 512" using e1 e2 assms by linarith
  have e4: "\<bar>s1 - (p1 + p2)\<bar> \<le> 1 / 1000000000000"
    using fl_small_error[OF b12] unfolding s1_def .
  have b3: "\<bar>s1 + p3\<bar> \<le> 512" using e1 e2 e3 e4 assms by linarith
  have e5: "\<bar>fl (s1 + p3) - (s1 + p3)\<bar> \<le> 1 / 1000000000000"
    using fl_small_error[OF b3] .
  have "\<bar>fl (s1 + p3) - (299 / 1000 * r + 587 / 1000 * g + 114 / 1000 * b)\<bar> \<le> 1 / 100000000000"
    using e1 e2 e3 e4 e5 by linarith
  then show ?thesis unfolding s1_def p1_def p2_def p3_def .
qed


lemma halfway_mod: "(S mod 1000 = 500) = ((S + 500) mod 1000 = (0::int))"
proof -
  define t where "t = S mod 1000"
  have t: "0 \<le> t" "t < 1000" unfolding t_def by simp_all
  have "(S + 500) mod 1000 = (t + 500) mod 1000" unfolding t_def by (simp add: mod_add_left_eq)
  moreover have "((t + 500) mod 1000 = 0) = (t = 500)"
  proof
    assume "t = 500" then show "(t + 500) mod 1000 = 0" by simp
  next
    assume z: "(t + 500) mod 1000 = 0"
    then have "1000 dvd t + 500" by (simp add: mod_eq_0_iff_dvd)
    then obtain k where k: "t + 500 = 1000 * k" by (auto simp: dvd_def)
    then have "0 < k" "k < 2" using t by linarith+
    then have "k = 1" by simp
    then show "t = 500" using k by simp
  qed
  ultimately show ?thesis unfolding t_def by simp
qed

lemma gray_of_exact:
  assumes "is_byte r" "is_byte g" "is_byte b"
  shows "\<not> halfway r g b \<Longrightarrow> gray_of r g b = luminance r g b"
    and "halfway r g b \<Longrightarrow> gray_of r g b = luminance r g b \<or> gray_of r g b = luminance r g b - 1"
proof -
  define S where "S = 299 * r + 587 * g + 114 * b"
  define q where "q = (S + 500) div 1000"
  define m where "m = (S + 500) mod 1000"
  define v where "v = fl (fl (fl (fl (299 / 1000) * real_of_int r) + fl (fl (587 / 1000) * real_of_int g))
                   + fl (fl (114 / 1000) * real_of_int b))"
  have lum: "luminance r g b = q" unfolding q_def S_def by (rule luminance_div)
  have gray: "gray_of r g b = \<lfloor>v + 1 / 2\<rfloor>" by (simp add: gray_of_def js_round_def v_def)
  have m: "0 \<le> m" "m < 1000" unfolding m_def by simp_all
  have "S + 500 = 1000 * q + m" unfolding q_def m_def by simp
  then have "real_of_int (S + 500) = real_of_int (1000 * q + m)" by simp
  then have ex: "299 / 1000 * real_of_int r + 587 / 1000 * real_of_int g + 114 / 1000 * real_of_int b + 1 / 2
      = real_of_int q + real_of_int m / 1000"
    unfolding S_def by simp
  have "\<bar>v - (299 / 1000 * real_of_int r + 587 / 1000 * real_of_int g + 114 / 1000 * real_of_int b)\<bar>
          \<le> 1 / 100000000000"
    unfolding v_def using assms by (intro gray_sum_error) (simp_all add: is_byte_def)
  then have e: "\<bar>v + 1 / 2 - (real_of_int q + real_of_int m / 1000)\<bar> \<le> 1 / 100000000000"
    using ex by linarith
  have hw: "halfway r g b \<longleftrightarrow> m = 0"
    unfolding halfway_def m_def S_def by (rule halfway_mod)
  show "gray_of r g b = luminance r g b" if "\<not> halfway r g b"
  proof -
    have "1 \<le> m" "m \<le> 999" using that hw m by simp_all
    then have "1 \<le> real_of_int m" "real_of_int m \<le> 999" by simp_all
    then have "real_of_int q \<le> v + 1 / 2" "v + 1 / 2 < real_of_int q + 1" using e by linarith+
    then have "\<lfloor>v + 1 / 2\<rfloor> = q" by (intro floor_unique) simp_all
    then show ?thesis using lum gray by simp
  qed
  show "gray_of r g b = luminance r g b \<or> gray_of r g b = luminance r g b - 1" if "halfway r g b"
  proof -
    have "real_of_int m = 0" using that hw by simp
    then have b: "real_of_int q - 1 \<le> v + 1 / 2" "v + 1 / 2 < real_of_int q + 1" using e by linarith+
    show ?thesis
    proof (cases "real_of_int q \<le> v + 1 / 2")
      case True
      then have "\<lfloor>v + 1 / 2\<rfloor> = q" using b(2) by (intro floor_unique) simp_all
      then show ?thesis using lum gray by simp
    next
      case False
      then have "\<lfloor>v + 1 / 2\<rfloor> = q - 1" using b(1) by (intro floor_unique) simp_all
      then show ?thesis using lum gray by simp
    qed
  qed
qed

text \<open>
  Claim C4, as the code has it. In mode \<^verbatim>\<open>'grayscale'\<close> and for all bytes \<open>r\<close>, \<open>g\<close>, \<open>b\<close>,
  \<^verbatim>\<open>applyColorMode\<close> returns \<open>(L, L, L)\<close>, where \<open>L\<close> is a byte: the value of
  \<^verbatim>\<open>Math.round(0.299 * r + 0.587 * g + 0.114 * b)\<close> in binary64 arithmetic. \<open>L\<close> is the
  luminance \<open>round(0.299 r + 0.587 g + 0.114 b)\<close> of exact arithmetic whenever the exact sum
  is not halfway between two integers; when it is, \<open>L\<close> is one of the two integers next
  to the sum, the upper or the lower one as the rounding errors of the binary64 sum
  decide. Black gives \<open>(0, 0, 0)\<close> and white gives \<open>(255, 255, 255)\<close>.
\<close>

theorem grayscale_binary64_luminance:
  "(\<forall>r g b. is_byte r \<and> is_byte g \<and> is_byte b \<longrightarrow>
      (\<exists>L. applyColorMode r g b ''grayscale'' = Inr (L, L, L) \<and> is_byte L \<and>
           (\<not> halfway r g b \<longrightarrow> L = luminance r g b) \<and>
           (halfway r g b \<longrightarrow> L = luminance r g b \<or> L = luminance r g b - 1))) \<and>
   applyColorMode 0 0 0 ''grayscale'' = Inr (0, 0, 0) \<and>
   applyColorMode 255 255 255 ''grayscale'' = Inr (255, 255, 255)"
proof (intro conjI allI impI)
  fix r g b assume a: "is_byte r \<and> is_byte g \<and> is_byte b"
  then have b: "is_byte r" "is_byte g" "is_byte b" by simp_all
  have "is_byte (gray_of r g b)" by (rule gray_of_byte[OF b])
  then show "\<exists>L. applyColorMode r g b ''grayscale'' = Inr (L, L, L) \<and> is_byte L \<and>
           (\<not> halfway r g b \<longrightarrow> L = luminance r g b) \<and>
           (halfway r g b \<longrightarrow> L = luminance r g b \<or> L = luminance r g b - 1)"
    unfolding applyColorMode_grayscale using gray_of_exact[OF b] by blast
qed (simp_all add: applyColorMode_grayscale gray_of_examples)

theorem grayscale_binary64_luminance_witness:
  "is_byte 10 \<and> is_byte 20 \<and> is_byte 30 \<and> \<not> halfway 10 20 30 \<and>
   applyColorMode 10 20 30 ''grayscale'' = Inr (18, 18, 18) \<and>
   applyColorMode 255 255 255 ''grayscale'' = Inr (255, 255, 255)"
proof -
  have b: "is_byte 10" "is_byte 20" "is_byte 30" by (simp_all add: is_byte_def)
  have h: "\<not> halfway 10 20 30" by (simp add: halfway_def)
  have l: "luminance 10 20 30 = 18" by (simp add: luminance_div)
  obtain L where L: "applyColorMode 10 20 30 ''grayscale'' = Inr (L, L, L)"
      "\<not> halfway 10 20 30 \<longrightarrow> L = luminance 10 20 30"
    using grayscale_binary64_luminance b by blast
  then have "applyColorMode 10 20 30 ''grayscale'' = Inr (18, 18, 18)" using h l by simp
  moreover have "applyColorMode 255 255 255 ''grayscale'' = Inr (255, 255, 255)"
    using grayscale_binary64_luminance by blast
  ultimately show ?thesis using b h by blast
qed

text \<open>
  The claim C4 as stated, with the formula read in exact arithmetic, fails where the exact
  sum is halfway between two integers. At \<open>(0, 36, 12)\<close> the exact sum is \<open>22.5\<close>, whose
  rounding is 23, and the code returns 22. No other rounding rule of exact arithmetic
  describes the code either: at \<open>(0, 0, 250)\<close> the exact sum is \<open>28.5\<close> and the code returns
  29.
\<close>

theorem grayscale_exact_rounding_counterexample:
  "applyColorMode 0 36 12 ''grayscale'' = Inr (22, 22, 22) \<and> luminance 0 36 12 = 23 \<and>
   applyColorMode 0 0 250 ''grayscale'' = Inr (29, 29, 29) \<and> halfway 0 0 250"
  by (simp add: applyColorMode_grayscale gray_of_examples luminance_div halfway_def)


section \<open>Properties of the pixelation\<close>

lemma set_size_const:
  "set_height h (set_width w c) =
     \<lparr>canvas_width = w, canvas_height = h, imageSmoothingEnabled = True,
      fillStyle = Rgb 0 0 0, strokeStyle = Rgb 0 0 0, lineWidth = 1, drawn = []\<rparr>"
  by (simp add: set_height_def set_width_def)

lemma fill_blocks_drawn:
  "\<exists>fs. drawn (fst (fill_blocks px sw m bw bh cs ctx)) = drawn ctx @ fs \<and>
        (\<forall>d\<in>set fs. \<not> is_stroke d)"
proof (induction cs arbitrary: ctx)
  case Nil
  then show ?case by simp
next
  case (Cons xy cs)
  obtain x y where xy: "xy = (x, y)" by (cases xy) auto
  let ?i = "(y * sw + x) * 4"
  show ?case
  proof (cases "applyColorMode (uint (px ?i)) (uint (px (?i + 1))) (uint (px (?i + 2))) m")
    case (Inl e)
    then show ?thesis by (simp add: xy Let_def)
  next
    case (Inr col)
    obtain r' g' b' where col: "col = (r', g', b')" by (cases col) auto
    let ?ctx' = "fillRect (num_floor (num_mul (Fin (real x)) bw)) (num_floor (num_mul (Fin (real y)) bh))
                   (num_ceil bw) (num_ceil bh) (ctx\<lparr>fillStyle := Rgb r' g' b'\<rparr>)"
    obtain fs where fs: "drawn (fst (fill_blocks px sw m bw bh cs ?ctx')) = drawn ?ctx' @ fs"
      "\<forall>d\<in>set fs. \<not> is_stroke d"
      using Cons.IH[of ?ctx'] by blast
    have d: "drawn ?ctx' = drawn ctx @ [FillRect (Rgb r' g' b') (num_floor (num_mul (Fin (real x)) bw))
        (num_floor (num_mul (Fin (real y)) bh)) (num_ceil bw) (num_ceil bh)]"
      by (simp add: fillRect_def)
    have "fill_blocks px sw m bw bh (xy # cs) ctx = fill_blocks px sw m bw bh cs ?ctx'"
      using Inr by (simp add: xy col Let_def)
    then have "drawn (fst (fill_blocks px sw m bw bh (xy # cs) ctx)) =
        drawn ctx @ (FillRect (Rgb r' g' b') (num_floor (num_mul (Fin (real x)) bw))
        (num_floor (num_mul (Fin (real y)) bh)) (num_ceil bw) (num_ceil bh) # fs)"
      using fs(1) d by simp
    moreover have "\<forall>d\<in>set (FillRect (Rgb r' g' b') (num_floor (num_mul (Fin (real x)) bw))
        (num_floor (num_mul (Fin (real y)) bh)) (num_ceil bw) (num_ceil bh) # fs). \<not> is_stroke d"
      using fs(2) by (simp add: is_stroke_def)
    ultimately show ?thesis by blast
  qed
qed

lemma fill_blocks_size:
  "canvas_width (fst (fill_blocks px sw m bw bh cs ctx)) = canvas_width ctx \<and>
   canvas_height (fst (fill_blocks px sw m bw bh cs ctx)) = canvas_height ctx"
proof (induction cs arbitrary: ctx)
  case Nil
  then show ?case by simp
next
  case (Cons xy cs)
  obtain x y where xy: "xy = (x, y)" by (cases xy) auto
  show ?case
    by (cases "applyColorMode (uint (px ((y * sw + x) * 4))) (uint (px ((y * sw + x) * 4 + 1)))
                 (uint (px ((y * sw + x) * 4 + 2))) m")
       (auto simp: xy Let_def Cons.IH fillRect_def split: prod.splits)
qed

lemma foldl_stroke_drawn:
  "drawn (foldl (\<lambda>c k. stroke_line (p k) (q k) c) c0 ks) =
     drawn c0 @ map (\<lambda>k. Stroke (strokeStyle c0) (lineWidth c0) [p k, q k]) ks \<and>
   strokeStyle (foldl (\<lambda>c k. stroke_line (p k) (q k) c) c0 ks) = strokeStyle c0 \<and>
   lineWidth (foldl (\<lambda>c k. stroke_line (p k) (q k) c) c0 ks) = lineWidth c0 \<and>
   canvas_width (foldl (\<lambda>c k. stroke_line (p k) (q k) c) c0 ks) = canvas_width c0 \<and>
   canvas_height (foldl (\<lambda>c k. stroke_line (p k) (q k) c) c0 ks) = canvas_height c0"
  by (induction ks arbitrary: c0) (simp_all add: stroke_line_def)

lemma draw_grid_drawn:
  "drawn (draw_grid sw sh bw bh cw ch ctx) =
     drawn ctx @
     map (\<lambda>x. Stroke (Rgba 0 0 0 (3 / 10)) 1 [(grid_at x bw, Fin 0), (grid_at x bw, ch)]) (upto sw) @
     map (\<lambda>y. Stroke (Rgba 0 0 0 (3 / 10)) 1 [(Fin 0, grid_at y bh), (cw, grid_at y bh)]) (upto sh)"
  using foldl_stroke_drawn[of "\<lambda>x. (grid_at x bw, Fin 0)" "\<lambda>x. (grid_at x bw, ch)"
          "ctx\<lparr>strokeStyle := Rgba 0 0 0 (3 / 10), lineWidth := 1\<rparr>" "upto sw"]
        foldl_stroke_drawn[of "\<lambda>y. (Fin 0, grid_at y bh)" "\<lambda>y. (cw, grid_at y bh)"
          "foldl (\<lambda>c x. stroke_line (grid_at x bw, Fin 0) (grid_at x bw, ch) c)
             (ctx\<lparr>strokeStyle := Rgba 0 0 0 (3 / 10), lineWidth := 1\<rparr>) (upto sw)" "upto sh"]
  by (simp add: draw_grid_def Let_def)

lemma long_of_Some:
  assumes "long_of n = Some a"
  shows "\<exists>x. n = Fin x \<and> a = (if 0 \<le> x then \<lfloor>x\<rfloor> else \<lceil>x\<rceil>)"
  using assms by (cases n) (auto simp: long_of_def Let_def split: if_splits)

lemma blockW_ge3_positive:
  assumes "long_of (scaledWidth img ps) = Some a" "a \<noteq> 0"
      and "long_of (scaledHeight img ps) = Some b" "b \<noteq> 0"
      and "num_ge (blockW img ps) (Fin 3)"
  shows "upto (scaledWidth img ps) \<noteq> []"
proof -
  obtain x where x: "scaledWidth img ps = Fin x" "a = (if 0 \<le> x then \<lfloor>x\<rfloor> else \<lceil>x\<rceil>)"
    using long_of_Some[OF assms(1)] by blast
  obtain y where y: "scaledHeight img ps = Fin y" "b = (if 0 \<le> y then \<lfloor>y\<rfloor> else \<lceil>y\<rceil>)"
    using long_of_Some[OF assms(3)] by blast
  have x0: "x \<noteq> 0" using x(2) assms(2) by auto
  have y0: "y \<noteq> 0" using y(2) assms(4) by auto
  show ?thesis
  proof (cases "0 < x")
    case True
    then have f: "0 \<le> \<lfloor>x\<rfloor>" by simp
    have "\<not> \<lfloor>x\<rfloor> + 1 \<le> 0" using f by linarith
    then show ?thesis unfolding x(1) by (simp del: zero_le_floor)
  next
    case False
    then have xn: "x < 0" using x0 by simp
    obtain p where p: "ps = Fin p" "p \<noteq> 0"
      using x(1) x0 by (cases ps) (auto simp: scaledWidth_def split: if_splits)
    have xv: "x = of_int \<lfloor>fl (real (image_width img) / p)\<rfloor>"
      using x(1) p by (simp add: scaledWidth_def)
    have "fl (real (image_width img) / p) < 0" using xn unfolding xv by simp
    then have "\<not> 0 \<le> real (image_width img) / p" using fl_nonneg by fastforce
    then have pn: "p < 0" using p(2) by (cases "0 < p") simp_all
    define s where "s = min (min (fl (400 / x)) (fl (400 / y))) p"
    have sc: "scale img ps = Fin s"
      using x(1) y(1) x0 y0 p by (simp add: scale_def maxSize_def s_def)
    have sn: "s < 0" using pn by (simp add: s_def)
    have "0 \<le> x * s" using xn sn by (simp add: mult_nonpos_nonpos)
    then have "0 \<le> fl (x * s)" by (rule fl_nonneg)
    then have c0: "0 \<le> \<lfloor>fl (x * s)\<rfloor>" by simp
    have cw: "canvasWidth img ps = Fin (of_int \<lfloor>fl (x * s)\<rfloor>)"
      using x(1) sc by (simp add: canvasWidth_def)
    have "of_int \<lfloor>fl (x * s)\<rfloor> / x \<le> 0" using c0 xn by (simp add: divide_nonneg_neg)
    then have "fl (of_int \<lfloor>fl (x * s)\<rfloor> / x) \<le> 0" by (rule fl_nonpos)
    moreover have "blockW img ps = Fin (fl (of_int \<lfloor>fl (x * s)\<rfloor> / x))"
      using cw x(1) x0 by (simp add: blockW_def)
    ultimately have "\<not> num_ge (blockW img ps) (Fin 3)" by simp
    then show ?thesis using assms(5) by simp
  qed
qed

lemma pixelate_image_data_error:
  assumes "getImageData img (scaledWidth img (pixelSize_of opts)) (scaledHeight img (pixelSize_of opts)) = Inl e"
  shows "snd (pixelate img opts c) = Some e" "drawn (fst (pixelate img opts c)) = []"
  using assms by (simp_all add: pixelate_def Let_def set_size_const)

lemma getImageData_Inr:
  assumes "getImageData img sw sh = Inr px"
  shows "\<exists>a b. long_of sw = Some a \<and> a \<noteq> 0 \<and> long_of sh = Some b \<and> b \<noteq> 0"
  using assms by (auto simp: getImageData_def split: option.splits if_splits)

lemma pixelate_strokes:
  assumes "snd (pixelate img opts c) = None"
  shows "(\<exists>d\<in>set (drawn (fst (pixelate img opts c))). is_stroke d) \<longleftrightarrow>
         (showGrid_of opts \<and> num_ge (blockW img (pixelSize_of opts)) (Fin 3) \<and>
          num_ge (blockH img (pixelSize_of opts)) (Fin 3))"
proof -
  let ?ps = "pixelSize_of opts"
  let ?sw = "scaledWidth img ?ps" and ?sh = "scaledHeight img ?ps"
  let ?cw = "canvasWidth img ?ps" and ?ch = "canvasHeight img ?ps"
  let ?bw = "blockW img ?ps" and ?bh = "blockH img ?ps"
  let ?ctx = "(set_height ?ch (set_width ?cw c))\<lparr>imageSmoothingEnabled := False\<rparr>"
  obtain px where px: "getImageData img ?sw ?sh = Inr px"
    using assms by (cases "getImageData img ?sw ?sh") (simp_all add: pixelate_def Let_def)
  let ?f = "fill_blocks px (the_nat ?sw) (colorMode_of opts) ?bw ?bh (cells_in_order ?sw ?sh) ?ctx"
  obtain c1 where c1: "?f = (c1, None)"
    using assms px by (cases ?f) (auto simp: pixelate_def Let_def split: option.splits)
  obtain fs where fs: "drawn c1 = fs" "\<forall>d\<in>set fs. \<not> is_stroke d"
    using fill_blocks_drawn[of px "the_nat ?sw" "colorMode_of opts" ?bw ?bh "cells_in_order ?sw ?sh" ?ctx] c1
    by (simp add: set_size_const)
  let ?cond = "showGrid_of opts \<and> num_ge ?bw (Fin 3) \<and> num_ge ?bh (Fin 3)"
  have res: "fst (pixelate img opts c) = (if ?cond then draw_grid ?sw ?sh ?bw ?bh ?cw ?ch c1 else c1)"
    using px c1 by (simp add: pixelate_def Let_def)
  show ?thesis
  proof (cases ?cond)
    case False
    then show ?thesis using res fs by auto
  next
    case True
    obtain a b where "long_of ?sw = Some a" "a \<noteq> 0" "long_of ?sh = Some b" "b \<noteq> 0"
      using getImageData_Inr[OF px] by blast
    then have "upto ?sw \<noteq> []" using blockW_ge3_positive True by blast
    then obtain k ks where ks: "upto ?sw = k # ks" by (cases "upto ?sw") auto
    have "is_stroke (Stroke (Rgba 0 0 0 (3 / 10)) 1 [(grid_at k ?bw, Fin 0), (grid_at k ?bw, ?ch)])"
      by (simp add: is_stroke_def)
    moreover have "Stroke (Rgba 0 0 0 (3 / 10)) 1 [(grid_at k ?bw, Fin 0), (grid_at k ?bw, ?ch)]
        \<in> set (drawn (draw_grid ?sw ?sh ?bw ?bh ?cw ?ch c1))"
      unfolding draw_grid_drawn ks by simp
    ultimately show ?thesis using True res by auto
  qed
qed

lemma pixelate_no_grid:
  assumes "\<not> (num_ge (blockW img (pixelSize_of opts)) (Fin 3) \<and>
              num_ge (blockH img (pixelSize_of opts)) (Fin 3))"
  shows "pixelate img opts c = pixelate img (opts\<lparr>showGrid := Some False\<rparr>) c"
    and "\<forall>d\<in>set (drawn (fst (pixelate img opts c))). \<not> is_stroke d"
proof -
  let ?ps = "pixelSize_of opts"
  let ?sw = "scaledWidth img ?ps" and ?sh = "scaledHeight img ?ps"
  let ?cw = "canvasWidth img ?ps" and ?ch = "canvasHeight img ?ps"
  let ?bw = "blockW img ?ps" and ?bh = "blockH img ?ps"
  let ?ctx = "(set_height ?ch (set_width ?cw c))\<lparr>imageSmoothingEnabled := False\<rparr>"
  have o: "pixelSize_of (opts\<lparr>showGrid := Some False\<rparr>) = ?ps"
    "colorMode_of (opts\<lparr>showGrid := Some False\<rparr>) = colorMode_of opts"
    by (simp_all add: pixelSize_of_def colorMode_of_def)
  show "pixelate img opts c = pixelate img (opts\<lparr>showGrid := Some False\<rparr>) c"
    using assms unfolding pixelate_def o Let_def
    by (auto split: sum.splits prod.splits option.splits)
  show "\<forall>d\<in>set (drawn (fst (pixelate img opts c))). \<not> is_stroke d"
  proof (cases "getImageData img ?sw ?sh")
    case (Inl e)
    then show ?thesis using pixelate_image_data_error(2)[OF Inl] by simp
  next
    case (Inr px)
    let ?f = "fill_blocks px (the_nat ?sw) (colorMode_of opts) ?bw ?bh (cells_in_order ?sw ?sh) ?ctx"
    obtain fs where fs: "drawn (fst ?f) = fs" "\<forall>d\<in>set fs. \<not> is_stroke d"
      using fill_blocks_drawn[of px "the_nat ?sw" "colorMode_of opts" ?bw ?bh "cells_in_order ?sw ?sh" ?ctx]
      by (simp add: set_size_const)
    have "fst (pixelate img opts c) = fst ?f"
      using Inr assms by (cases ?f) (auto simp: pixelate_def Let_def split: option.splits)
    then show ?thesis using fs by simp
  qed
qed

lemma fl_numeral [simp]: "(numeral k :: int) < 2 ^ 53 \<Longrightarrow> fl (numeral k) = numeral k"
  using fl_int[of "numeral k"] by simp

lemma fl_one [simp]: "fl 1 = 1"
  using fl_int[of 1] by simp

lemma fl_half [simp]: "fl (1 / 2) = 1 / 2"
proof -
  have "fl (1 / 2) = of_int (rne ((1 / 2) / 2 powi (- 1 - 52))) * 2 powi (- 1 - 52)"
    by (rule fl_eval) (simp_all add: power_int_minus)
  also have "(1 / 2) / 2 powi (- 1 - 52) = (of_int (2 ^ 52) :: real)"
    by (simp add: power_int_minus)
  finally show ?thesis unfolding rne_int by (simp add: power_int_minus)
qed

lemma applyColorMode_total:
  assumes "mode \<notin> set object_prototype"
  shows "\<exists>c. applyColorMode r g b mode = Inr c"
proof -
  have "palettes mode \<noteq> Inherited" using assms by (simp add: palettes_def)
  then show ?thesis
    by (cases "palettes mode") (simp_all add: applyColorMode_def del: split_paired_Ex nearest.simps)
qed

lemma fill_blocks_no_error:
  assumes "mode \<notin> set object_prototype"
  shows "snd (fill_blocks px sw mode bw bh cs ctx) = None"
proof (induction cs arbitrary: ctx)
  case Nil
  then show ?case by simp
next
  case (Cons xy cs)
  obtain x y where xy: "xy = (x, y)" by (cases xy) auto
  obtain col where "applyColorMode (uint (px ((y * sw + x) * 4))) (uint (px ((y * sw + x) * 4 + 1)))
                 (uint (px ((y * sw + x) * 4 + 2))) mode = Inr col"
    using applyColorMode_total[OF assms] by blast
  then show ?case by (cases col) (simp add: xy Let_def Cons.IH)
qed

lemma pixelate_returns:
  assumes "getImageData img (scaledWidth img (pixelSize_of opts)) (scaledHeight img (pixelSize_of opts)) = Inr px"
      and "colorMode_of opts \<notin> set object_prototype"
  shows "snd (pixelate img opts c) = None"
proof -
  let ?ps = "pixelSize_of opts"
  let ?f = "fill_blocks px (the_nat (scaledWidth img ?ps)) (colorMode_of opts) (blockW img ?ps) (blockH img ?ps)
              (cells_in_order (scaledWidth img ?ps) (scaledHeight img ?ps))
              ((set_height (canvasHeight img ?ps) (set_width (canvasWidth img ?ps) c))\<lparr>imageSmoothingEnabled := False\<rparr>)"
  have "snd ?f = None" by (rule fill_blocks_no_error[OF assms(2)])
  then show ?thesis using assms(1) by (cases ?f) (simp add: pixelate_def Let_def)
qed

lemma draw_grid_size:
  "canvas_width (draw_grid sw sh bw bh cw ch ctx) = canvas_width ctx \<and>
   canvas_height (draw_grid sw sh bw bh cw ch ctx) = canvas_height ctx"
  using foldl_stroke_drawn[of "\<lambda>x. (grid_at x bw, Fin 0)" "\<lambda>x. (grid_at x bw, ch)"
          "ctx\<lparr>strokeStyle := Rgba 0 0 0 (3 / 10), lineWidth := 1\<rparr>" "upto sw"]
        foldl_stroke_drawn[of "\<lambda>y. (Fin 0, grid_at y bh)" "\<lambda>y. (cw, grid_at y bh)"
          "foldl (\<lambda>c x. stroke_line (grid_at x bw, Fin 0) (grid_at x bw, ch) c)
             (ctx\<lparr>strokeStyle := Rgba 0 0 0 (3 / 10), lineWidth := 1\<rparr>) (upto sw)" "upto sh"]
  by (simp add: draw_grid_def Let_def)

lemma pixelate_size:
  "canvas_width (fst (pixelate img opts c)) = canvasWidth img (pixelSize_of opts)"
  "canvas_height (fst (pixelate img opts c)) = canvasHeight img (pixelSize_of opts)"
proof -
  let ?ps = "pixelSize_of opts"
  let ?ctx = "(set_height (canvasHeight img ?ps) (set_width (canvasWidth img ?ps) c))\<lparr>imageSmoothingEnabled := False\<rparr>"
  have s: "canvas_width (fst (fill_blocks px sw m bw bh cs ?ctx)) = canvasWidth img ?ps \<and>
           canvas_height (fst (fill_blocks px sw m bw bh cs ?ctx)) = canvasHeight img ?ps" for px sw m bw bh cs
    using fill_blocks_size[of px sw m bw bh cs ?ctx] by (simp add: set_size_const)
  have "canvas_width (fst (pixelate img opts c)) = canvasWidth img ?ps \<and>
        canvas_height (fst (pixelate img opts c)) = canvasHeight img ?ps"
  proof (cases "getImageData img (scaledWidth img ?ps) (scaledHeight img ?ps)")
    case (Inl e)
    then show ?thesis by (simp add: pixelate_def Let_def set_size_const)
  next
    case (Inr px)
    let ?f = "fill_blocks px (the_nat (scaledWidth img ?ps)) (colorMode_of opts) (blockW img ?ps) (blockH img ?ps)
              (cells_in_order (scaledWidth img ?ps) (scaledHeight img ?ps)) ?ctx"
    obtain c1 e where f: "?f = (c1, e)" by (cases ?f) auto
    have c1: "canvas_width c1 = canvasWidth img ?ps" "canvas_height c1 = canvasHeight img ?ps"
      using s[of px "the_nat (scaledWidth img ?ps)" "colorMode_of opts" "blockW img ?ps" "blockH img ?ps"
          "cells_in_order (scaledWidth img ?ps) (scaledHeight img ?ps)"] f by simp_all
    show ?thesis using Inr f c1 draw_grid_size
      by (cases e) (simp_all add: pixelate_def Let_def)
  qed
  then show "canvas_width (fst (pixelate img opts c)) = canvasWidth img (pixelSize_of opts)"
    "canvas_height (fst (pixelate img opts c)) = canvasHeight img (pixelSize_of opts)" by simp_all
qed

lemma geometry_6_3:
  "scaledWidth (sample_image 6 3) (Fin 3) = Fin 2" "scaledHeight (sample_image 6 3) (Fin 3) = Fin 1"
  "blockW (sample_image 6 3) (Fin 3) = Fin 3" "blockH (sample_image 6 3) (Fin 3) = Fin 3"
  by (simp_all add: blockW_def blockH_def canvasWidth_def canvasHeight_def scale_def maxSize_def
        scaledWidth_def scaledHeight_def sample_image_def)

lemma geometry_4_4:
  "scaledWidth (sample_image 4 4) (Fin 2) = Fin 2" "scaledHeight (sample_image 4 4) (Fin 2) = Fin 2"
  "blockW (sample_image 4 4) (Fin 2) = Fin 2" "blockH (sample_image 4 4) (Fin 2) = Fin 2"
  by (simp_all add: blockW_def blockH_def canvasWidth_def canvasHeight_def scale_def maxSize_def
        scaledWidth_def scaledHeight_def sample_image_def)

lemma geometry_1600_2:
  "scaledWidth (sample_image 1600 2) (Fin 2) = Fin 800" "scaledHeight (sample_image 1600 2) (Fin 2) = Fin 1"
  "scale (sample_image 1600 2) (Fin 2) = Fin (1 / 2)"
  "canvasWidth (sample_image 1600 2) (Fin 2) = Fin 400" "canvasHeight (sample_image 1600 2) (Fin 2) = Fin 0"
  by (simp_all add: canvasWidth_def canvasHeight_def scale_def maxSize_def
        scaledWidth_def scaledHeight_def sample_image_def)

lemma geometry_1_1:
  "scaledWidth (sample_image 1 1) (Fin 2) = Fin 0" "scaledHeight (sample_image 1 1) (Fin 2) = Fin 0"
  "scale (sample_image 1 1) (Fin 2) = Fin 2"
  "canvasWidth (sample_image 1 1) (Fin 2) = Fin 0" "canvasHeight (sample_image 1 1) (Fin 2) = Fin 0"
  by (simp_all add: canvasWidth_def canvasHeight_def scale_def maxSize_def
        scaledWidth_def scaledHeight_def sample_image_def)

lemma getImageData_sample:
  "getImageData (sample_image 6 3) (Fin 2) (Fin 1) = Inr (image_data (sample_image 6 3) 2 1)"
  "getImageData (sample_image 4 4) (Fin 2) (Fin 2) = Inr (image_data (sample_image 4 4) 2 2)"
  "getImageData (sample_image 1600 2) (Fin 800) (Fin 1) = Inr (image_data (sample_image 1600 2) 800 1)"
  "getImageData (sample_image 1 1) (Fin 0) (Fin 0) = Inl IndexSizeError"
  by (simp_all add: getImageData_def long_of_def)


text \<open>
  Claim C6. \<^verbatim>\<open>pixelate\<close> is a function of the image and the options alone: the state in
  which it finds the target canvas (its dimensions, its context, what was drawn on it) has
  no influence on the canvas it leaves or on the exception it raises, because assigning
  the width and the height resets the canvas before anything is drawn. In particular a
  second invocation with the same image and options, on the canvas that the first one
  left, gives the same result again. The script keeps no state of its own between calls
  (\<^verbatim>\<open>palettes\<close> is only read).
\<close>

theorem pixelate_deterministic:
  "pixelate img opts c = pixelate img opts c' \<and>
   pixelate img opts (fst (pixelate img opts c)) = pixelate img opts c"
  by (simp add: pixelate_def set_size_const)


theorem pixelate_deterministic_witness:
  "pixelate (sample_image 6 3) no_options fresh_canvas =
   pixelate (sample_image 6 3) no_options (fillRect (Fin 0) (Fin 0) (Fin 9) (Fin 9) fresh_canvas)"
  using pixelate_deterministic[of "sample_image 6 3" no_options fresh_canvas
          "fillRect (Fin 0) (Fin 0) (Fin 9) (Fin 9) fresh_canvas"]
  by simp

text \<open>
  What a call leaves on the canvas. When it raises, no line has been drawn. When the
  image data is read and the colour mode is not an inherited name, the canvas holds one
  filled rectangle per cell of the sample grid, in the reduced colour of the cell's pixel,
  followed, if \<^verbatim>\<open>showGrid\<close> is true and both block dimensions are at least 3, by one
  vertical line per \<open>x\<close> from 0 to the sample width and one horizontal line per \<open>y\<close> from 0
  to the sample height, and by nothing otherwise.
\<close>

lemma fill_blocks_fills:
  assumes "mode \<notin> set object_prototype"
  shows "drawn (fst (fill_blocks px sw mode bw bh cs ctx)) =
     drawn ctx @
     map (\<lambda>(x, y).
            FillRect
              (case projr (applyColorMode (uint (px ((y * sw + x) * 4))) (uint (px ((y * sw + x) * 4 + 1)))
                             (uint (px ((y * sw + x) * 4 + 2))) mode) of
                 (r', g', b') \<Rightarrow> Rgb r' g' b')
              (num_floor (num_mul (Fin (real x)) bw)) (num_floor (num_mul (Fin (real y)) bh))
              (num_ceil bw) (num_ceil bh))
         cs"
proof (induction cs arbitrary: ctx)
  case Nil
  then show ?case by simp
next
  case (Cons xy cs)
  obtain x y where xy: "xy = (x, y)" by (cases xy) auto
  obtain col where col: "applyColorMode (uint (px ((y * sw + x) * 4))) (uint (px ((y * sw + x) * 4 + 1)))
                 (uint (px ((y * sw + x) * 4 + 2))) mode = Inr col"
    using applyColorMode_total[OF assms] by blast
  obtain r' g' b' where c: "col = (r', g', b')" by (cases col) auto
  show ?case unfolding xy using col c by (simp add: Let_def Cons.IH fillRect_def)
qed

lemma applyColorMode_inherited:
  assumes "mode \<in> set object_prototype"
  shows "applyColorMode r g b mode = Inl TypeError"
  using assms by (auto simp: applyColorMode_def palettes_def object_prototype_def)

lemma fill_blocks_inherited:
  assumes "mode \<in> set object_prototype" "cs \<noteq> []"
  shows "fill_blocks px sw mode bw bh cs ctx = (ctx, Some TypeError)"
proof -
  obtain x y rest where cs: "cs = (x, y) # rest" using assms(2) by (cases cs) auto
  show ?thesis unfolding cs by (simp add: Let_def applyColorMode_inherited[OF assms(1)])
qed

lemma pixelate_inherited_mode:
  assumes "getImageData img (scaledWidth img (pixelSize_of opts)) (scaledHeight img (pixelSize_of opts)) = Inr px"
      and "colorMode_of opts \<in> set object_prototype"
      and "cells_in_order (scaledWidth img (pixelSize_of opts)) (scaledHeight img (pixelSize_of opts)) \<noteq> []"
  shows "snd (pixelate img opts c) = Some TypeError" "drawn (fst (pixelate img opts c)) = []"
  using assms(1) fill_blocks_inherited[OF assms(2,3)]
  by (simp_all add: pixelate_def Let_def set_size_const)

lemma pixelate_raised_no_grid:
  assumes "snd (pixelate img opts c) \<noteq> None"
  shows "\<forall>d\<in>set (drawn (fst (pixelate img opts c))). \<not> is_stroke d"
proof -
  let ?ps = "pixelSize_of opts"
  let ?sw = "scaledWidth img ?ps" and ?sh = "scaledHeight img ?ps"
  let ?ctx = "(set_height (canvasHeight img ?ps) (set_width (canvasWidth img ?ps) c))\<lparr>imageSmoothingEnabled := False\<rparr>"
  show ?thesis
  proof (cases "getImageData img ?sw ?sh")
    case (Inl e)
    then show ?thesis using pixelate_image_data_error(2)[OF Inl] by simp
  next
    case (Inr px)
    let ?f = "fill_blocks px (the_nat ?sw) (colorMode_of opts) (blockW img ?ps) (blockH img ?ps)
                (cells_in_order ?sw ?sh) ?ctx"
    obtain fs where fs: "drawn (fst ?f) = fs" "\<forall>d\<in>set fs. \<not> is_stroke d"
      using fill_blocks_drawn[of px "the_nat ?sw" "colorMode_of opts" "blockW img ?ps" "blockH img ?ps"
              "cells_in_order ?sw ?sh" ?ctx]
      by (simp add: set_size_const)
    have "fst (pixelate img opts c) = fst ?f"
      using Inr assms by (cases ?f) (auto simp: pixelate_def Let_def split: option.splits)
    then show ?thesis using fs by simp
  qed
qed

lemma pixelate_grid_lines:
  "(\<exists>d\<in>set (drawn (fst (pixelate img opts c))). is_stroke d) \<longleftrightarrow>
     (showGrid_of opts \<and> num_ge (blockW img (pixelSize_of opts)) (Fin 3) \<and>
      num_ge (blockH img (pixelSize_of opts)) (Fin 3) \<and> snd (pixelate img opts c) = None)"
proof (cases "snd (pixelate img opts c) = None")
  case True
  then show ?thesis using pixelate_strokes[OF True] by simp
next
  case False
  then show ?thesis using pixelate_raised_no_grid[OF False] by blast
qed

lemma pixelate_drawn:
  assumes "getImageData img (scaledWidth img (pixelSize_of opts)) (scaledHeight img (pixelSize_of opts)) = Inr px"
      and "colorMode_of opts \<notin> set object_prototype"
  shows "drawn (fst (pixelate img opts c)) =
     map (\<lambda>(x, y).
            FillRect
              (case projr (applyColorMode
                             (uint (px ((y * the_nat (scaledWidth img (pixelSize_of opts)) + x) * 4)))
                             (uint (px ((y * the_nat (scaledWidth img (pixelSize_of opts)) + x) * 4 + 1)))
                             (uint (px ((y * the_nat (scaledWidth img (pixelSize_of opts)) + x) * 4 + 2)))
                             (colorMode_of opts)) of
                 (r', g', b') \<Rightarrow> Rgb r' g' b')
              (num_floor (num_mul (Fin (real x)) (blockW img (pixelSize_of opts))))
              (num_floor (num_mul (Fin (real y)) (blockH img (pixelSize_of opts))))
              (num_ceil (blockW img (pixelSize_of opts))) (num_ceil (blockH img (pixelSize_of opts))))
         (cells_in_order (scaledWidth img (pixelSize_of opts)) (scaledHeight img (pixelSize_of opts))) @
     (if showGrid_of opts \<and> num_ge (blockW img (pixelSize_of opts)) (Fin 3) \<and>
         num_ge (blockH img (pixelSize_of opts)) (Fin 3)
      then map (\<lambda>x. Stroke (Rgba 0 0 0 (3 / 10)) 1
              [(num_add (num_floor (num_mul (Fin (real x)) (blockW img (pixelSize_of opts)))) (Fin (1 / 2)), Fin 0),
               (num_add (num_floor (num_mul (Fin (real x)) (blockW img (pixelSize_of opts)))) (Fin (1 / 2)),
                canvasHeight img (pixelSize_of opts))])
             (upto (scaledWidth img (pixelSize_of opts))) @
           map (\<lambda>y. Stroke (Rgba 0 0 0 (3 / 10)) 1
              [(Fin 0, num_add (num_floor (num_mul (Fin (real y)) (blockH img (pixelSize_of opts)))) (Fin (1 / 2))),
               (canvasWidth img (pixelSize_of opts),
                num_add (num_floor (num_mul (Fin (real y)) (blockH img (pixelSize_of opts)))) (Fin (1 / 2)))])
             (upto (scaledHeight img (pixelSize_of opts)))
      else [])"
proof -
  let ?ps = "pixelSize_of opts"
  let ?sw = "scaledWidth img ?ps" and ?sh = "scaledHeight img ?ps"
  let ?cw = "canvasWidth img ?ps" and ?ch = "canvasHeight img ?ps"
  let ?bw = "blockW img ?ps" and ?bh = "blockH img ?ps"
  let ?ctx = "(set_height ?ch (set_width ?cw c))\<lparr>imageSmoothingEnabled := False\<rparr>"
  let ?f = "fill_blocks px (the_nat ?sw) (colorMode_of opts) ?bw ?bh (cells_in_order ?sw ?sh) ?ctx"
  have n: "snd ?f = None" by (rule fill_blocks_no_error[OF assms(2)])
  then obtain c1 where c1: "?f = (c1, None)" by (cases ?f) auto
  have d0: "drawn ?ctx = []" by (simp add: set_size_const)
  have fs: "drawn c1 = drawn (fst ?f)" using c1 by simp
  have res: "fst (pixelate img opts c) =
      (if showGrid_of opts \<and> num_ge ?bw (Fin 3) \<and> num_ge ?bh (Fin 3)
       then draw_grid ?sw ?sh ?bw ?bh ?cw ?ch c1 else c1)"
    using assms(1) c1 by (simp add: pixelate_def Let_def)
  show ?thesis
    unfolding res
    by (simp only: if_distrib[of drawn] draw_grid_drawn fs fill_blocks_fills[OF assms(2)] d0
          grid_at_def append_Nil append_Nil2 append_assoc if_distrib[of "\<lambda>t. _ @ t"] cong: if_cong)
qed

text \<open>
  Claim C5 does not hold for every input. For an image of 6 by 3 pixels, the pixel size 3,
  \<^verbatim>\<open>showGrid\<close> true and the colour mode \<^verbatim>\<open>'constructor'\<close>, both block dimensions are 3, so
  the grid lines are due; but \<^verbatim>\<open>applyColorMode\<close> raises its TypeError at the first cell, the
  call ends there, and nothing is drawn: no block and no line. On every call that returns,
  the lines are drawn exactly when both block dimensions are at least 3
  (\<open>pixelate_grid_lines\<close>, \<open>pixelate_drawn\<close>).
\<close>

theorem pixelate_grid_lost_on_inherited_mode:
  "showGrid_of \<lparr>pixelSize = Some (Fin 3), colorMode = Some ''constructor'', showGrid = Some True\<rparr> \<and>
   blockW (sample_image 6 3)
     (pixelSize_of \<lparr>pixelSize = Some (Fin 3), colorMode = Some ''constructor'', showGrid = Some True\<rparr>)
     = Fin 3 \<and>
   blockH (sample_image 6 3)
     (pixelSize_of \<lparr>pixelSize = Some (Fin 3), colorMode = Some ''constructor'', showGrid = Some True\<rparr>)
     = Fin 3 \<and>
   snd (pixelate (sample_image 6 3)
     \<lparr>pixelSize = Some (Fin 3), colorMode = Some ''constructor'', showGrid = Some True\<rparr> fresh_canvas)
     = Some TypeError \<and>
   drawn (fst (pixelate (sample_image 6 3)
     \<lparr>pixelSize = Some (Fin 3), colorMode = Some ''constructor'', showGrid = Some True\<rparr> fresh_canvas))
     = []"
proof -
  let ?o = "\<lparr>pixelSize = Some (Fin 3), colorMode = Some ''constructor'', showGrid = Some True\<rparr>"
  have p: "pixelSize_of ?o = Fin 3" by (simp add: pixelSize_of_def)
  have m: "colorMode_of ?o \<in> set object_prototype"
    by (simp add: colorMode_of_def object_prototype_def)
  have g: "getImageData (sample_image 6 3) (scaledWidth (sample_image 6 3) (pixelSize_of ?o))
      (scaledHeight (sample_image 6 3) (pixelSize_of ?o)) = Inr (image_data (sample_image 6 3) 2 1)"
    unfolding p geometry_6_3 by (rule getImageData_sample(1))
  have c: "cells_in_order (scaledWidth (sample_image 6 3) (pixelSize_of ?o))
      (scaledHeight (sample_image 6 3) (pixelSize_of ?o)) \<noteq> []"
    unfolding p geometry_6_3 by (simp add: cells_in_order_def)
  have "showGrid_of ?o" by (simp add: showGrid_of_def)
  then show ?thesis
    using pixelate_inherited_mode[OF g m c, of fresh_canvas] unfolding p geometry_6_3 by simp
qed


section \<open>The output dimensions\<close>

lemma fl_error_nonneg:
  assumes "0 \<le> x"
  shows "\<bar>fl x - x\<bar> \<le> x / 2 ^ 53"
proof -
  have "\<bar>x\<bar> = x" using assms by simp
  then show ?thesis using fl_error[of x] by (simp only:)
qed

lemma fl_upper: "0 \<le> x \<Longrightarrow> fl x \<le> x + x / 2 ^ 53"
  using fl_error_nonneg[of x] by linarith

lemma fl_lower: "0 \<le> x \<Longrightarrow> x - x / 2 ^ 53 \<le> fl x"
  using fl_error_nonneg[of x] by linarith

lemma floor_fl_div:
  fixes w p :: int
  assumes "0 \<le> w" "w < 2 ^ 32" "1 \<le> p" "p \<le> 32"
  shows "\<lfloor>fl (real_of_int w / real_of_int p)\<rfloor> = w div p"
proof (rule floor_unique)
  define q where "q = w div p"
  define r where "r = w mod p"
  define x where "x = real_of_int w / real_of_int p"
  have w: "w = q * p + r" by (simp add: q_def r_def)
  have r: "0 \<le> r" "r \<le> p - 1" using assms(3) by (simp_all add: r_def)
  have p0: "0 < real_of_int p" using assms(3) by simp
  have q0: "0 \<le> q" using assms(1,3) by (simp add: q_def pos_imp_zdiv_nonneg_iff)
  have "q * 1 \<le> q * p" using q0 assms(3) by (intro mult_left_mono) simp_all
  then have q: "0 \<le> q" "q \<le> w" using q0 w r(1) by simp_all
  have x: "x = real_of_int q + real_of_int r / real_of_int p"
    using p0 by (simp add: x_def w field_simps)
  have x0: "0 \<le> x" using assms(1) p0 by (simp add: x_def)
  have "real_of_int r / real_of_int p \<le> 1 - 1 / real_of_int p"
    using r(2) p0 by (simp add: field_simps)
  also have "\<dots> \<le> 1 - 1 / 32" using assms(3,4) p0 by (simp add: field_simps)
  finally have frac: "real_of_int r / real_of_int p \<le> 31 / 32" by simp
  have "real_of_int q \<le> x" using r(1) p0 by (simp add: x)
  then have "fl (real_of_int q) \<le> fl x" by (rule fl_mono)
  moreover have "fl (real_of_int q) = real_of_int q"
    using q assms(2) by (intro fl_int) simp
  ultimately show "real_of_int (w div p) \<le> fl (real_of_int w / real_of_int p)"
    by (simp add: q_def x_def)
  have "real_of_int w < 2 ^ 32" using assms(2) by simp
  moreover have "real_of_int q \<le> real_of_int w" using q(2) by simp
  ultimately have "x \<le> 2 ^ 32 + 1" using frac x by linarith
  then have "x / 2 ^ 53 \<le> (2 ^ 32 + 1) / 2 ^ 53" by (rule divide_right_mono) simp
  moreover have "((2::real) ^ 32 + 1) / 2 ^ 53 < 1 / 32" by simp
  ultimately have "fl x < real_of_int q + 1" using fl_upper[OF x0] frac x by linarith
  then show "fl (real_of_int w / real_of_int p) < real_of_int (w div p) + 1"
    by (simp add: q_def x_def)
qed

lemma canvas_dim_bounds:
  fixes a c p :: int
  assumes "1 \<le> a" "a < 2 ^ 32" "1 \<le> c" "c < 2 ^ 32" "2 \<le> p" "p \<le> 32"
  defines "s \<equiv> min (min (fl (400 / real_of_int a)) (fl (400 / real_of_int c))) (real_of_int p)"
  shows "0 \<le> \<lfloor>fl (real_of_int a * s)\<rfloor>"
    and "\<lfloor>fl (real_of_int a * s)\<rfloor> \<le> 400"
    and "c < 400 * a \<Longrightarrow> 1 \<le> \<lfloor>fl (real_of_int a * s)\<rfloor>"
proof -
  define u :: real where "u = 1 / 2 ^ 53"
  define ra where "ra = real_of_int a"
  define rc where "rc = real_of_int c"
  have a1: "1 \<le> ra" and c1: "1 \<le> rc" using assms(1,3) by (simp_all add: ra_def rc_def)
  have "real_of_int c \<le> 2 ^ 32" using assms(4) by simp
  moreover have "(2::real) ^ 32 + 1 \<le> 2 ^ 53" by simp
  ultimately have cb: "rc + 1 \<le> 2 ^ 53" unfolding rc_def by linarith
  have u: "0 < u" "u < 1 / 1000" by (simp_all add: u_def)
  define A where "A = fl (400 / ra)"
  define C where "C = fl (400 / rc)"
  have qa: "0 \<le> 400 / ra" and qc: "0 \<le> 400 / rc" using a1 c1 by simp_all
  have Aup: "A \<le> 400 / ra + (400 / ra) * u" using fl_upper[OF qa] by (simp add: A_def u_def)
  have Alo: "400 / ra - (400 / ra) * u \<le> A" using fl_lower[OF qa] by (simp add: A_def u_def)
  have Clo: "400 / rc - (400 / rc) * u \<le> C" using fl_lower[OF qc] by (simp add: C_def u_def)
  have aA_up: "ra * A \<le> 400 + 400 * u"
  proof -
    have "ra * A \<le> ra * (400 / ra + (400 / ra) * u)" using Aup a1 by (intro mult_left_mono) simp_all
    also have "\<dots> = 400 + 400 * u" using a1 by (simp add: field_simps)
    finally show ?thesis .
  qed
  have aA_lo: "400 - 400 * u \<le> ra * A"
  proof -
    have "ra * (400 / ra - (400 / ra) * u) \<le> ra * A" using Alo a1 by (intro mult_left_mono) simp_all
    moreover have "ra * (400 / ra - (400 / ra) * u) = 400 - 400 * u" using a1 by (simp add: field_simps)
    ultimately show ?thesis by simp
  qed
  have s_def': "s = min (min A C) (real_of_int p)" by (simp add: s_def A_def C_def ra_def rc_def)
  have Apos: "0 < A"
  proof -
    have "0 < 400 - 400 * u" using u by simp
    then have "0 < ra * A" using aA_lo by linarith
    then show ?thesis using a1 by (simp add: zero_less_mult_iff)
  qed
  have Cpos: "0 < C"
  proof -
    have "0 < 400 / rc - (400 / rc) * u"
    proof -
      have "400 / rc - (400 / rc) * u = (400 / rc) * (1 - u)" by (simp add: right_diff_distrib)
      moreover have "0 < (400 / rc) * (1 - u)" using c1 u by (intro mult_pos_pos) simp_all
      ultimately show ?thesis by simp
    qed
    then show ?thesis using Clo by linarith
  qed
  have spos: "0 < s" using Apos Cpos assms(5) by (simp add: s_def')
  have sA: "s \<le> A" by (simp add: s_def')
  have as_up: "ra * s \<le> 400 + 400 * u"
  proof -
    have "ra * s \<le> ra * A" using sA a1 by (intro mult_left_mono) simp_all
    then show ?thesis using aA_up by linarith
  qed
  have as0: "0 \<le> ra * s" using a1 spos by simp
  have "fl (ra * s) \<le> ra * s + (ra * s) * u" using fl_upper[OF as0] by (simp add: u_def)
  also have "\<dots> = (ra * s) * (1 + u)" by (simp add: algebra_simps)
  also have "\<dots> \<le> (400 + 400 * u) * (1 + u)" using as_up u by (intro mult_right_mono) simp_all
  also have "\<dots> < 401" unfolding u_def by simp
  finally have "fl (ra * s) < 401" .
  then show "\<lfloor>fl (real_of_int a * s)\<rfloor> \<le> 400" unfolding ra_def by (simp add: floor_le_iff)
  have "0 \<le> fl (ra * s)" using as0 by (rule fl_nonneg)
  then show "0 \<le> \<lfloor>fl (real_of_int a * s)\<rfloor>" unfolding ra_def by simp
  show "1 \<le> \<lfloor>fl (real_of_int a * s)\<rfloor>" if lt: "c < 400 * a"
  proof -
    have "rc + 1 \<le> 400 * ra" using lt unfolding ra_def rc_def by linarith
    have aC: "1 \<le> ra * C"
    proof -
      have "ra * (400 / rc - (400 / rc) * u) \<le> ra * C" using Clo a1 by (intro mult_left_mono) simp_all
      moreover have "ra * (400 / rc - (400 / rc) * u) = (400 * ra / rc) * (1 - u)"
        using c1 by (simp add: field_simps)
      moreover have "(rc + 1) / rc * (1 - u) \<le> (400 * ra / rc) * (1 - u)"
        using \<open>rc + 1 \<le> 400 * ra\<close> c1 u by (intro mult_right_mono divide_right_mono) simp_all
      moreover have "1 \<le> (rc + 1) / rc * (1 - u)"
      proof -
        have "u * (rc + 1) \<le> 1" using cb u by (simp add: u_def field_simps)
        then have "rc \<le> (rc + 1) * (1 - u)" by (simp add: algebra_simps)
        then show ?thesis using c1 by (simp add: field_simps)
      qed
      ultimately show ?thesis by linarith
    qed
    have aA: "1 \<le> ra * A" using aA_lo u by linarith
    have ap: "1 \<le> ra * real_of_int p"
    proof -
      have "1 * 2 \<le> ra * real_of_int p" using a1 assms(5) by (intro mult_mono) simp_all
      then show ?thesis by simp
    qed
    have "ra * s = min (min (ra * A) (ra * C)) (ra * real_of_int p)"
      using a1 unfolding s_def' by (simp add: min_def mult_le_cancel_left_pos)
    then have "1 \<le> ra * s" using aA aC ap by simp
    then have "fl 1 \<le> fl (ra * s)" by (rule fl_mono)
    then have "1 \<le> fl (ra * s)" using fl_int[of 1] by simp
    then show ?thesis unfolding ra_def by simp
  qed
qed

lemma scaled_regular:
  fixes p :: int
  assumes "2 \<le> p" "p \<le> 32" "image_width img < 2 ^ 32" "image_height img < 2 ^ 32"
  shows "scaledWidth img (Fin (real_of_int p)) = Fin (real_of_int (int (image_width img) div p))"
    and "scaledHeight img (Fin (real_of_int p)) = Fin (real_of_int (int (image_height img) div p))"
proof -
  have p: "real_of_int p \<noteq> 0" "1 \<le> p" using assms(1) by simp_all
  have w: "0 \<le> int (image_width img)" "int (image_width img) < 2 ^ 32"
    using assms(3) by simp_all
  have h: "0 \<le> int (image_height img)" "int (image_height img) < 2 ^ 32"
    using assms(4) by simp_all
  have rw: "real (image_width img) = real_of_int (int (image_width img))"
    and rh: "real (image_height img) = real_of_int (int (image_height img))" by simp_all
  show "scaledWidth img (Fin (real_of_int p)) = Fin (real_of_int (int (image_width img) div p))"
    unfolding scaledWidth_def rw using p(1) floor_fl_div[OF w p(2) assms(2)] by simp
  show "scaledHeight img (Fin (real_of_int p)) = Fin (real_of_int (int (image_height img) div p))"
    unfolding scaledHeight_def rh using p(1) floor_fl_div[OF h p(2) assms(2)] by simp
qed

lemma div_bounds:
  fixes p w :: int
  assumes "2 \<le> p" "0 \<le> w" "w < 2 ^ 32"
  shows "0 \<le> w div p" "w div p < 2 ^ 31" "p \<le> w \<Longrightarrow> 1 \<le> w div p" "w < p \<Longrightarrow> w div p = 0"
proof -
  show "0 \<le> w div p" using assms(1,2) by (simp add: pos_imp_zdiv_nonneg_iff)
  have "w div p \<le> w div 2" using assms(1,2) by (intro zdiv_mono2) simp_all
  then show "w div p < 2 ^ 31" using assms(3) by simp
  show "1 \<le> w div p" if "p \<le> w"
  proof -
    have "p div p \<le> w div p" using that assms(1) by (intro zdiv_mono1) simp_all
    then show ?thesis using assms(1) by simp
  qed
  show "w div p = 0" if "w < p" using that assms(2) by simp
qed

lemma long_of_int:
  assumes "0 \<le> k" "k < 2 ^ 31"
  shows "long_of (Fin (real_of_int k)) = Some k"
  using assms by (simp add: long_of_def)

lemma pixelate_regular:
  fixes p :: int
  assumes ps: "pixelSize_of opts = Fin (real_of_int p)" and p: "2 \<le> p" "p \<le> 32"
      and sz: "image_width img < 2 ^ 32" "image_height img < 2 ^ 32"
      and md: "colorMode_of opts \<notin> set object_prototype"
      and big: "p \<le> int (image_width img)" "p \<le> int (image_height img)"
  shows "snd (pixelate img opts c) = None"
    and "\<exists>cw ch. canvas_width (fst (pixelate img opts c)) = Fin (real_of_int cw) \<and>
           canvas_height (fst (pixelate img opts c)) = Fin (real_of_int ch) \<and>
           0 \<le> cw \<and> cw \<le> 400 \<and> 0 \<le> ch \<and> ch \<le> 400 \<and>
           (int (image_height img) div p < 400 * (int (image_width img) div p) \<longrightarrow> 1 \<le> cw) \<and>
           (int (image_width img) div p < 400 * (int (image_height img) div p) \<longrightarrow> 1 \<le> ch)"
proof -
  define a where "a = int (image_width img) div p"
  define b where "b = int (image_height img) div p"
  have w: "0 \<le> int (image_width img)" "int (image_width img) < 2 ^ 32" using sz(1) by simp_all
  have h: "0 \<le> int (image_height img)" "int (image_height img) < 2 ^ 32" using sz(2) by simp_all
  have a: "1 \<le> a" "a < 2 ^ 31" using div_bounds(2,3)[OF p(1) w] big(1) by (simp_all add: a_def)
  have b: "1 \<le> b" "b < 2 ^ 31" using div_bounds(2,3)[OF p(1) h] big(2) by (simp_all add: b_def)
  have a32: "a < 2 ^ 32" and b32: "b < 2 ^ 32" using a(2) b(2) by simp_all
  have sw: "scaledWidth img (pixelSize_of opts) = Fin (real_of_int a)"
    and sh: "scaledHeight img (pixelSize_of opts) = Fin (real_of_int b)"
    unfolding ps a_def b_def using scaled_regular[OF p sz] by simp_all
  define s where "s = min (min (fl (400 / real_of_int a)) (fl (400 / real_of_int b))) (real_of_int p)"
  have s': "s = min (min (fl (400 / real_of_int b)) (fl (400 / real_of_int a))) (real_of_int p)"
    by (simp add: s_def min.commute)
  have sc: "scale img (pixelSize_of opts) = Fin s"
    using a(1) b(1) unfolding scale_def sw sh maxSize_def by (simp add: ps s_def)
  have cw: "canvasWidth img (pixelSize_of opts) = Fin (real_of_int \<lfloor>fl (real_of_int a * s)\<rfloor>)"
    and ch: "canvasHeight img (pixelSize_of opts) = Fin (real_of_int \<lfloor>fl (real_of_int b * s)\<rfloor>)"
    unfolding canvasWidth_def canvasHeight_def sw sh sc by simp_all
  have gi: "getImageData img (scaledWidth img (pixelSize_of opts)) (scaledHeight img (pixelSize_of opts))
      = Inr (image_data img (nat \<bar>a\<bar>) (nat \<bar>b\<bar>))"
    unfolding sw sh getImageData_def using a b by (simp add: long_of_int)
  show "snd (pixelate img opts c) = None" using pixelate_returns[OF gi md] .
  note ba = canvas_dim_bounds[OF a(1) a32 b(1) b32 p, folded s_def]
  note bb = canvas_dim_bounds[OF b(1) b32 a(1) a32 p, folded s']
  have "canvas_width (fst (pixelate img opts c)) = Fin (real_of_int \<lfloor>fl (real_of_int a * s)\<rfloor>)"
    "canvas_height (fst (pixelate img opts c)) = Fin (real_of_int \<lfloor>fl (real_of_int b * s)\<rfloor>)"
    using pixelate_size[of img opts c] cw ch by simp_all
  moreover have "b < 400 * a \<longrightarrow> 1 \<le> \<lfloor>fl (real_of_int a * s)\<rfloor>" using ba(3) by simp
  moreover have "a < 400 * b \<longrightarrow> 1 \<le> \<lfloor>fl (real_of_int b * s)\<rfloor>" using bb(3) by simp
  ultimately show "\<exists>cw ch. canvas_width (fst (pixelate img opts c)) = Fin (real_of_int cw) \<and>
           canvas_height (fst (pixelate img opts c)) = Fin (real_of_int ch) \<and>
           0 \<le> cw \<and> cw \<le> 400 \<and> 0 \<le> ch \<and> ch \<le> 400 \<and>
           (int (image_height img) div p < 400 * (int (image_width img) div p) \<longrightarrow> 1 \<le> cw) \<and>
           (int (image_width img) div p < 400 * (int (image_height img) div p) \<longrightarrow> 1 \<le> ch)"
    using ba(1,2) bb(1,2) unfolding a_def[symmetric] b_def[symmetric] by blast
qed

lemma scale_finite:
  fixes p :: int
  assumes "0 \<le> a" "0 \<le> b"
  shows "\<exists>s. num_min (num_min (num_div (Fin 400) (Fin (real_of_int a))) (num_div (Fin 400) (Fin (real_of_int b))))
            (Fin (real_of_int p)) = Fin s"
  by (cases "a = 0"; cases "b = 0") simp_all

lemma pixelate_degenerate:
  fixes p :: int
  assumes ps: "pixelSize_of opts = Fin (real_of_int p)" and p: "2 \<le> p" "p \<le> 32"
      and sz: "image_width img < 2 ^ 32" "image_height img < 2 ^ 32"
      and small: "int (image_width img) < p \<or> int (image_height img) < p"
  shows "snd (pixelate img opts c) = Some IndexSizeError"
    and "int (image_width img) < p \<Longrightarrow>
           scaledWidth img (pixelSize_of opts) = Fin 0 \<and> canvas_width (fst (pixelate img opts c)) = Fin 0"
    and "int (image_height img) < p \<Longrightarrow>
           scaledHeight img (pixelSize_of opts) = Fin 0 \<and> canvas_height (fst (pixelate img opts c)) = Fin 0"
proof -
  define a where "a = int (image_width img) div p"
  define b where "b = int (image_height img) div p"
  have w: "0 \<le> int (image_width img)" "int (image_width img) < 2 ^ 32" using sz(1) by simp_all
  have h: "0 \<le> int (image_height img)" "int (image_height img) < 2 ^ 32" using sz(2) by simp_all
  have a: "0 \<le> a" "a < 2 ^ 31" using div_bounds(1,2)[OF p(1) w] by (simp_all add: a_def)
  have b: "0 \<le> b" "b < 2 ^ 31" using div_bounds(1,2)[OF p(1) h] by (simp_all add: b_def)
  have sw: "scaledWidth img (pixelSize_of opts) = Fin (real_of_int a)"
    and sh: "scaledHeight img (pixelSize_of opts) = Fin (real_of_int b)"
    unfolding ps a_def b_def using scaled_regular[OF p sz] by simp_all
  have "\<exists>s. scale img (pixelSize_of opts) = Fin s"
    using scale_finite[OF a(1) b(1), of p] sw sh by (simp add: scale_def maxSize_def ps)
  then obtain s where sc: "scale img (pixelSize_of opts) = Fin s" by blast
  have z: "a = 0 \<or> b = 0" using small div_bounds(4)[OF p(1) w] div_bounds(4)[OF p(1) h]
    by (auto simp: a_def b_def)
  have "getImageData img (scaledWidth img (pixelSize_of opts)) (scaledHeight img (pixelSize_of opts))
      = Inl IndexSizeError"
    unfolding sw sh getImageData_def using a b z by (auto simp: long_of_int)
  then show "snd (pixelate img opts c) = Some IndexSizeError" by (rule pixelate_image_data_error(1))
  show "scaledWidth img (pixelSize_of opts) = Fin 0 \<and> canvas_width (fst (pixelate img opts c)) = Fin 0"
    if "int (image_width img) < p"
  proof -
    have "a = 0" using that div_bounds(4)[OF p(1) w] by (simp add: a_def)
    then show ?thesis using sw sc by (simp add: pixelate_size canvasWidth_def)
  qed
  show "scaledHeight img (pixelSize_of opts) = Fin 0 \<and> canvas_height (fst (pixelate img opts c)) = Fin 0"
    if "int (image_height img) < p"
  proof -
    have "b = 0" using that div_bounds(4)[OF p(1) h] by (simp add: b_def)
    then show ?thesis using sh sc by (simp add: pixelate_size canvasHeight_def)
  qed
qed



text \<open>
  Claim C1, as the code has it. Let the pixel size be an integer \<open>p\<close> from 2 to 32, the image
  dimensions be below \<open>2^32\<close>, and the colour mode not be the name of a member of
  \<^verbatim>\<open>Object.prototype\<close>. If both image dimensions are at least \<open>p\<close>, \<^verbatim>\<open>pixelate\<close> raises nothing
  and the output width and height are integers from 0 to 400; the width is at least 1 if
  the sample height is below 400 times the sample width, and the height is at least 1 if
  the sample width is below 400 times the sample height. If \<open>p\<close> exceeds an image
  dimension, the sample dimension is 0 (it is not clamped to 1), the output dimension is
  0, and \<^verbatim>\<open>pixelate\<close> raises the IndexSizeError of \<^verbatim>\<open>getImageData\<close>.
\<close>

theorem pixelate_output_size:
  fixes p :: int
  assumes "pixelSize_of opts = Fin (real_of_int p)" "2 \<le> p" "p \<le> 32"
      and "image_width img < 2 ^ 32" "image_height img < 2 ^ 32"
      and "colorMode_of opts \<notin> set object_prototype"
  shows "(p \<le> int (image_width img) \<and> p \<le> int (image_height img) \<longrightarrow>
           snd (pixelate img opts c) = None \<and>
           (\<exists>cw ch. canvas_width (fst (pixelate img opts c)) = Fin (real_of_int cw) \<and>
              canvas_height (fst (pixelate img opts c)) = Fin (real_of_int ch) \<and>
              0 \<le> cw \<and> cw \<le> 400 \<and> 0 \<le> ch \<and> ch \<le> 400 \<and>
              (int (image_height img) div p < 400 * (int (image_width img) div p) \<longrightarrow> 1 \<le> cw) \<and>
              (int (image_width img) div p < 400 * (int (image_height img) div p) \<longrightarrow> 1 \<le> ch))) \<and>
         (int (image_width img) < p \<or> int (image_height img) < p \<longrightarrow>
           snd (pixelate img opts c) = Some IndexSizeError \<and>
           (int (image_width img) < p \<longrightarrow>
              scaledWidth img (pixelSize_of opts) = Fin 0 \<and>
              canvas_width (fst (pixelate img opts c)) = Fin 0) \<and>
           (int (image_height img) < p \<longrightarrow>
              scaledHeight img (pixelSize_of opts) = Fin 0 \<and>
              canvas_height (fst (pixelate img opts c)) = Fin 0))"
  using pixelate_regular[OF assms] pixelate_degenerate[OF assms(1,2,3,4,5)] by blast

theorem pixelate_output_size_witness:
  "snd (pixelate (sample_image 300 200) (no_options\<lparr>pixelSize := Some (Fin 8)\<rparr>) fresh_canvas) = None \<and>
   (\<exists>cw ch. canvas_width (fst (pixelate (sample_image 300 200)
                 (no_options\<lparr>pixelSize := Some (Fin 8)\<rparr>) fresh_canvas)) = Fin (real_of_int cw) \<and>
            canvas_height (fst (pixelate (sample_image 300 200)
                 (no_options\<lparr>pixelSize := Some (Fin 8)\<rparr>) fresh_canvas)) = Fin (real_of_int ch) \<and>
            1 \<le> cw \<and> cw \<le> 400 \<and> 1 \<le> ch \<and> ch \<le> 400) \<and>
   snd (pixelate (sample_image 1 1) (no_options\<lparr>pixelSize := Some (Fin 2)\<rparr>) fresh_canvas)
     = Some IndexSizeError"
proof -
  let ?o8 = "no_options\<lparr>pixelSize := Some (Fin 8)\<rparr>"
  let ?o2 = "no_options\<lparr>pixelSize := Some (Fin 2)\<rparr>"
  have p8: "pixelSize_of ?o8 = Fin (real_of_int 8)" and p2: "pixelSize_of ?o2 = Fin (real_of_int 2)"
    by (simp_all add: pixelSize_of_def no_options_def)
  have m: "colorMode_of ?o8 \<notin> set object_prototype" "colorMode_of ?o2 \<notin> set object_prototype"
    by (simp_all add: colorMode_of_def no_options_def object_prototype_def)
  have s8: "image_width (sample_image 300 200) < 2 ^ 32" "image_height (sample_image 300 200) < 2 ^ 32"
    and s2: "image_width (sample_image 1 1) < 2 ^ 32" "image_height (sample_image 1 1) < 2 ^ 32"
    by (simp_all add: sample_image_def)
  have d: "int (image_width (sample_image 300 200)) = 300" "int (image_height (sample_image 300 200)) = 200"
    "int (image_width (sample_image 1 1)) = 1" "int (image_height (sample_image 1 1)) = 1"
    by (simp_all add: sample_image_def)
  note a = pixelate_output_size[OF p8 _ _ s8 m(1), of fresh_canvas, unfolded d]
  note b = pixelate_output_size[OF p2 _ _ s2 m(2), of fresh_canvas, unfolded d]
  have "snd (pixelate (sample_image 1 1) ?o2 fresh_canvas) = Some IndexSizeError" using b by simp
  moreover have "snd (pixelate (sample_image 300 200) ?o8 fresh_canvas) = None" using a by simp
  moreover have "\<exists>cw ch. canvas_width (fst (pixelate (sample_image 300 200) ?o8 fresh_canvas)) = Fin (real_of_int cw) \<and>
            canvas_height (fst (pixelate (sample_image 300 200) ?o8 fresh_canvas)) = Fin (real_of_int ch) \<and>
            1 \<le> cw \<and> cw \<le> 400 \<and> 1 \<le> ch \<and> ch \<le> 400"
  proof -
    have "\<exists>cw ch. canvas_width (fst (pixelate (sample_image 300 200) ?o8 fresh_canvas)) = Fin (real_of_int cw) \<and>
              canvas_height (fst (pixelate (sample_image 300 200) ?o8 fresh_canvas)) = Fin (real_of_int ch) \<and>
              0 \<le> cw \<and> cw \<le> 400 \<and> 0 \<le> ch \<and> ch \<le> 400 \<and>
              ((200::int) div 8 < 400 * (300 div 8) \<longrightarrow> 1 \<le> cw) \<and>
              ((300::int) div 8 < 400 * (200 div 8) \<longrightarrow> 1 \<le> ch)"
      using a by simp
    then obtain cw ch where "canvas_width (fst (pixelate (sample_image 300 200) ?o8 fresh_canvas)) = Fin (real_of_int cw)"
      "canvas_height (fst (pixelate (sample_image 300 200) ?o8 fresh_canvas)) = Fin (real_of_int ch)"
      "cw \<le> 400" "ch \<le> 400" "1 \<le> cw" "1 \<le> ch"
      by auto
    then show ?thesis by blast
  qed
  ultimately show ?thesis by blast
qed


text \<open>
  The claim C1 as stated fails twice. An image of 1 by 1 pixel with pixel size 2 has a
  sample grid of 0 by 0: \<^verbatim>\<open>pixelate\<close> raises an IndexSizeError and leaves an output width of
  0. An image of 1600 by 2 pixels with pixel size 2 has a sample grid of 800 by 1, the
  scale is \<open>min(400/800, 400/1, 2) = 0.5\<close>, and the call returns an output of width 400 and
  height \<open>floor(1 * 0.5) = 0\<close>.
\<close>

theorem pixelate_output_size_counterexample:
  "snd (pixelate (sample_image 1 1) (no_options\<lparr>pixelSize := Some (Fin 2)\<rparr>) fresh_canvas)
     = Some IndexSizeError \<and>
   canvas_width (fst (pixelate (sample_image 1 1) (no_options\<lparr>pixelSize := Some (Fin 2)\<rparr>) fresh_canvas))
     = Fin 0 \<and>
   snd (pixelate (sample_image 1600 2) (no_options\<lparr>pixelSize := Some (Fin 2)\<rparr>) fresh_canvas) = None \<and>
   canvas_width (fst (pixelate (sample_image 1600 2) (no_options\<lparr>pixelSize := Some (Fin 2)\<rparr>) fresh_canvas))
     = Fin 400 \<and>
   canvas_height (fst (pixelate (sample_image 1600 2) (no_options\<lparr>pixelSize := Some (Fin 2)\<rparr>) fresh_canvas))
     = Fin 0"
proof -
  let ?o2 = "no_options\<lparr>pixelSize := Some (Fin 2)\<rparr>"
  have p2: "pixelSize_of ?o2 = Fin 2" by (simp add: pixelSize_of_def no_options_def)
  have m: "colorMode_of ?o2 \<notin> set object_prototype"
    by (simp add: colorMode_of_def no_options_def object_prototype_def)
  have "snd (pixelate (sample_image 1 1) ?o2 fresh_canvas) = Some IndexSizeError"
    by (rule pixelate_image_data_error(1)) (unfold p2 geometry_1_1, rule getImageData_sample(4))
  moreover have "snd (pixelate (sample_image 1600 2) ?o2 fresh_canvas) = None"
    by (rule pixelate_returns[OF _ m]) (unfold p2 geometry_1600_2, rule getImageData_sample(3))
  ultimately show ?thesis unfolding pixelate_size p2 geometry_1_1 geometry_1600_2 by simp
qed
section \<open>The defaults of the options\<close>








end
